theory Spec2Isabelle
  imports Complex_Main "HOL-Library.Word"
begin

text \<open>
  A model of the Contentful case-sensitive search script: the values it reads, its
  start-up checks, \<open>extractStringContent\<close>, \<open>makeSnippet\<close>, \<open>processStringValue\<close> and
  \<open>searchContentful\<close> as index.js has them, and the loops of the two other copies of the
  script that the repository holds. Console output is left out; an exception is a value
  of type \<open>failure\<close>.
\<close>

section \<open>JavaScript values\<close>

text \<open>
  A JavaScript string is a sequence of UTF-16 code units; \<open>length\<close>, \<open>indexOf\<close> and
  \<open>slice\<close> all count code units. String literals of the program that are plain ASCII
  are written through \<open>ascii\<close>.
\<close>

type_synonym jsstr = "16 word list"

definition ascii :: "string \<Rightarrow> jsstr" where
  "ascii s = map of_char s"

text \<open>
  The values a field of an entry can hold. Entries come from a parsed JSON response, so
  a value is undefined, null, a boolean, a (finite) number, a string, an array or a plain
  object; \<open>JFunction\<close> stands for the built-in methods that every object inherits from
  \<open>Object.prototype\<close>. An object is the list of its own enumerable properties in the
  order \<open>Object.entries\<close> lists them; its keys are distinct. Not-a-number and the
  infinities, which JSON cannot write, are left out.
\<close>

datatype jsval =
    JUndefined
  | JNull
  | JBool bool
  | JNum rat
  | JStr jsstr
  | JFunction
  | JArr "jsval list"
  | JObj "(jsstr \<times> jsval) list"

datatype jstype = TUndefined | TObject | TBoolean | TNumber | TString | TFunction

datatype failure = TypeError | TransportError | UsageError | ConfigurationError

fun truthy :: "jsval \<Rightarrow> bool" where
  "truthy JUndefined = False"
| "truthy JNull = False"
| "truthy (JBool b) = b"
| "truthy (JNum n) = (n \<noteq> 0)"
| "truthy (JStr s) = (s \<noteq> [])"
| "truthy JFunction = True"
| "truthy (JArr xs) = True"
| "truthy (JObj kvs) = True"

fun typeof :: "jsval \<Rightarrow> jstype" where
  "typeof JUndefined = TUndefined"
| "typeof JNull = TObject"
| "typeof (JBool b) = TBoolean"
| "typeof (JNum n) = TNumber"
| "typeof (JStr s) = TString"
| "typeof JFunction = TFunction"
| "typeof (JArr xs) = TObject"
| "typeof (JObj kvs) = TObject"

fun isArray :: "jsval \<Rightarrow> bool" where
  "isArray (JArr xs) = True"
| "isArray v = False"

text \<open>Decimal digits of an array index, as the property name of that index.\<close>

fun dec :: "nat \<Rightarrow> jsstr" where
  "dec n = (if n < 10 then [of_nat (48 + n)] else dec (n div 10) @ [of_nat (48 + n mod 10)])"

text \<open>
  \<open>Object.entries(v)\<close> for a value that is neither undefined nor null: the own
  enumerable string-keyed properties. An array lists its indices, a string its code
  units, another primitive nothing.
\<close>

fun own_enumerable :: "jsval \<Rightarrow> (jsstr \<times> jsval) list" where
  "own_enumerable (JObj kvs) = kvs"
| "own_enumerable (JArr xs) = zip (map dec [0..<length xs]) xs"
| "own_enumerable (JStr s) = zip (map dec [0..<length s]) (map (\<lambda>c. JStr [c]) s)"
| "own_enumerable v = []"

definition Object_entries :: "jsval \<Rightarrow> failure + (jsstr \<times> jsval) list" where
  "Object_entries v = (if v = JUndefined \<or> v = JNull then Inl TypeError else Inr (own_enumerable v))"

text \<open>
  Every prototype chain ends in \<open>Object.prototype\<close>, whose members are these methods and
  the accessor \<open>__proto__\<close>. The program reads computed keys (\<open>fieldValue[locale]\<close>,
  \<open>locale in fieldValue\<close>) only on plain objects, and on other values only the fixed
  names \<open>sys\<close>, \<open>id\<close>, \<open>contentType\<close>, \<open>fields\<close>, \<open>nodeType\<close> and \<open>content\<close>, which no
  built-in prototype defines; so the members of \<open>Array.prototype\<close> and
  \<open>String.prototype\<close> are left out.
\<close>

definition Object_prototype_methods :: "jsstr list" where
  "Object_prototype_methods = map ascii
     [''constructor'', ''__defineGetter__'', ''__defineSetter__'', ''hasOwnProperty'',
      ''__lookupGetter__'', ''__lookupSetter__'', ''isPrototypeOf'', ''propertyIsEnumerable'',
      ''toString'', ''valueOf'', ''toLocaleString'']"

definition inherited :: "jsstr \<Rightarrow> jsval option" where
  "inherited k =
     (if k \<in> set Object_prototype_methods then Some JFunction
      else if k = ascii ''__proto__''
        then Some (JObj (map (\<lambda>m. (m, JFunction)) Object_prototype_methods))
      else None)"

text \<open>\<open>v[k]\<close> for a value \<open>v\<close> that is neither undefined nor null.\<close>

definition get_prop :: "jsval \<Rightarrow> jsstr \<Rightarrow> jsval" where
  "get_prop v k =
     (case map_of (own_enumerable v) k of
        Some x \<Rightarrow> x
      | None \<Rightarrow>
          if k = ascii ''length'' \<and> (isArray v \<or> typeof v = TString)
          then JNum (of_nat (length (own_enumerable v)))
          else (case inherited k of Some x \<Rightarrow> x | None \<Rightarrow> JUndefined))"

text \<open>\<open>v.k\<close>: reading a property of undefined or null throws a TypeError.\<close>

definition member :: "jsval \<Rightarrow> jsstr \<Rightarrow> failure + jsval" where
  "member v k = (if v = JUndefined \<or> v = JNull then Inl TypeError else Inr (get_prop v k))"

text \<open>\<open>k in v\<close> for an object \<open>v\<close>: an own property or an inherited one.\<close>

definition has_property :: "jsval \<Rightarrow> jsstr \<Rightarrow> bool" where
  "has_property v k = (map_of (own_enumerable v) k \<noteq> None \<or> inherited k \<noteq> None)"

text \<open>
  \<open>String.prototype.slice(start, end)\<close>: a negative position counts from the end, every
  position is clamped to the string, and an empty range gives the empty string.
\<close>

definition js_slice :: "jsstr \<Rightarrow> int \<Rightarrow> int \<Rightarrow> jsstr" where
  "js_slice s start fin =
     (let len = int (length s);
          k_from = (if start < 0 then max (len + start) 0 else min start len);
          k_to = (if fin < 0 then max (len + fin) 0 else min fin len)
      in if k_to \<le> k_from then [] else take (nat (k_to - k_from)) (drop (nat k_from) s))"

text \<open>
  \<open>String.prototype.indexOf(t)\<close>: the smallest position at which \<open>t\<close> occurs, compared
  code unit by code unit, or \<open>-1\<close>.
\<close>

fun indexOf_at :: "jsstr \<Rightarrow> jsstr \<Rightarrow> nat \<Rightarrow> int" where
  "indexOf_at [] t k = (if t = [] then int k else - 1)"
| "indexOf_at (c # cs) t k =
     (if take (length t) (c # cs) = t then int k else indexOf_at cs t (Suc k))"

definition indexOf :: "jsstr \<Rightarrow> jsstr \<Rightarrow> int" where
  "indexOf v t = indexOf_at v t 0"

section \<open>The canonical script (index.js)\<close>

subsection \<open>Collaborators and configuration\<close>

text \<open>
  What the script uses and does not define: the rich-text renderer of
  \<open>@contentful/rich-text-plain-text-renderer\<close>, which returns a string or throws
  (\<open>None\<close>), and the runtime's conversion of a number, function, array or object to a
  string inside a template literal.
\<close>

record runtime =
  documentToPlainTextString :: "jsval \<Rightarrow> jsstr option"
  ToString_other :: "jsval \<Rightarrow> jsstr"

fun template_string :: "runtime \<Rightarrow> jsval \<Rightarrow> jsstr" where
  "template_string rt (JStr s) = s"
| "template_string rt JUndefined = ascii ''undefined''"
| "template_string rt JNull = ascii ''null''"
| "template_string rt (JBool b) = (if b then ascii ''true'' else ascii ''false'')"
| "template_string rt v = ToString_other rt v"

text \<open>
  \<open>process.env\<close> after \<open>dotenv.config()\<close>: each variable is a string or is not set.
\<close>

record environment =
  env_SPACE_ID :: "jsstr option"
  env_CPA_TOKEN :: "jsstr option"
  env_ENVIRONMENT_ID :: "jsstr option"
  env_DEBUG_MODE :: "jsstr option"

text \<open>The module-level constants of the script once its two checks have passed.\<close>

record config =
  cfg_term :: jsstr
  cfg_locale :: jsstr
  SPACE_ID :: jsstr
  CPA_TOKEN :: jsstr
  ENVIRONMENT_ID :: "jsstr option"
  DEBUG_MODE :: bool

definition argv_at :: "jsstr list \<Rightarrow> nat \<Rightarrow> jsval" where
  "argv_at argv n = (if n < length argv then JStr (argv ! n) else JUndefined)"

fun env_val :: "jsstr option \<Rightarrow> jsval" where
  "env_val None = JUndefined"
| "env_val (Some s) = JStr s"

fun str_of :: "jsval \<Rightarrow> jsstr" where
  "str_of (JStr s) = s"
| "str_of v = []"

text \<open>
  Lines 8 to 26 of index.js: the search term and the locale from the command line, the
  usage check, the check of the environment, and the debug flag. \<open>process.argv\<close>
  starts with the interpreter and the script, so the term is at index 2.
\<close>

fun startup :: "jsstr list \<Rightarrow> environment \<Rightarrow> failure + config" where
  "startup argv env =
     (let term_arg = argv_at argv 2;
          locale_arg = (if truthy (argv_at argv 3) then argv_at argv 3 else JStr (ascii ''en-US''))
      in if \<not> truthy term_arg then Inl UsageError
         else if \<not> truthy (env_val (env_SPACE_ID env)) \<or> \<not> truthy (env_val (env_CPA_TOKEN env))
           then Inl ConfigurationError
         else Inr \<lparr> cfg_term = str_of term_arg,
                    cfg_locale = str_of locale_arg,
                    SPACE_ID = str_of (env_val (env_SPACE_ID env)),
                    CPA_TOKEN = str_of (env_val (env_CPA_TOKEN env)),
                    ENVIRONMENT_ID = env_ENVIRONMENT_ID env,
                    DEBUG_MODE = (env_DEBUG_MODE env = Some (ascii ''true'')) \<rparr>)"

subsection \<open>extractStringContent\<close>

definition nodeType :: jsstr where "nodeType = ascii ''nodeType''"
definition content :: jsstr where "content = ascii ''content''"

text \<open>
  The debug output is left out; the tests are the source's, in its order. A caught
  renderer exception and every shape that is not searchable give \<open>null\<close> (\<open>None\<close>).
\<close>

definition extractStringContent :: "runtime \<Rightarrow> jsval \<Rightarrow> jsstr \<Rightarrow> jsstr \<Rightarrow> jsstr option" where
  "extractStringContent rt fieldValue fieldName loc =
     (if typeof fieldValue = TString then Some (str_of fieldValue)
      else if truthy fieldValue \<and> typeof fieldValue = TObject \<and> \<not> isArray fieldValue \<and>
              truthy (get_prop fieldValue nodeType) \<and> truthy (get_prop fieldValue content)
        then documentToPlainTextString rt fieldValue
      else if truthy fieldValue \<and> typeof fieldValue = TObject \<and> \<not> isArray fieldValue
        then (if has_property fieldValue loc
              then (let v = get_prop fieldValue loc
                    in if truthy v \<and> typeof v = TObject \<and>
                          truthy (get_prop v nodeType) \<and> truthy (get_prop v content)
                         then documentToPlainTextString rt v
                       else if typeof v = TString then Some (str_of v)
                       else None)
              else None)
      else None)"

subsection \<open>Match records and snippets\<close>

record match_record =
  row_id :: jsval
  row_contentType :: jsval
  row_fieldName :: jsstr
  row_locale :: jsstr
  row_link :: jsstr
  row_snippet :: jsstr

definition entryLink :: "runtime \<Rightarrow> config \<Rightarrow> jsval \<Rightarrow> jsstr" where
  "entryLink rt cfg i =
     ascii ''https://app.contentful.com/spaces/'' @ SPACE_ID cfg @
     ascii ''/environments/'' @ template_string rt (env_val (ENVIRONMENT_ID cfg)) @
     ascii ''/entries/'' @ template_string rt i"

text \<open>The horizontal ellipsis U+2026 is one code unit.\<close>

definition ellipsis :: jsstr where
  "ellipsis = [0x2026]"

definition makeSnippet :: "config \<Rightarrow> jsstr \<Rightarrow> int \<Rightarrow> jsstr" where
  "makeSnippet cfg txt i =
     (let n = int (length (cfg_term cfg));
          pre = js_slice txt (max 0 (i - 30)) i;
          post = js_slice txt (i + n) (i + n + 30)
      in (if i > 30 then ellipsis else []) @ pre @ ascii ''['' @ cfg_term cfg @ ascii '']'' @ post @
         (if i + n + 30 < int (length txt) then ellipsis else []))"

text \<open>\<open>entry.sys.id\<close> and \<open>entry.sys.contentType?.sys.id || "Unknown"\<close>.\<close>

definition entry_id :: "jsval \<Rightarrow> failure + jsval" where
  "entry_id entry =
     (case member entry (ascii ''sys'') of
        Inl e \<Rightarrow> Inl e
      | Inr s \<Rightarrow> member s (ascii ''id''))"

definition contentType_of :: "jsval \<Rightarrow> failure + jsval" where
  "contentType_of entry =
     (case member entry (ascii ''sys'') of
        Inl e \<Rightarrow> Inl e
      | Inr s \<Rightarrow>
          (case member s (ascii ''contentType'') of
             Inl e \<Rightarrow> Inl e
           | Inr ct \<Rightarrow>
               if ct = JUndefined \<or> ct = JNull then Inr (JStr (ascii ''Unknown''))
               else (case member ct (ascii ''sys'') of
                       Inl e \<Rightarrow> Inl e
                     | Inr cs \<Rightarrow>
                         (case member cs (ascii ''id'') of
                            Inl e \<Rightarrow> Inl e
                          | Inr v \<Rightarrow> Inr (if truthy v then v else JStr (ascii ''Unknown''))))))"

text \<open>
  The result is the function's boolean with the rows after the call; an exception
  thrown while the record is built leaves the rows as they were.
\<close>

definition processStringValue ::
  "runtime \<Rightarrow> config \<Rightarrow> jsval \<Rightarrow> jsstr \<Rightarrow> jsstr \<Rightarrow> match_record list
     \<Rightarrow> failure + (bool \<times> match_record list)" where
  "processStringValue rt cfg entry fieldName val rows =
     (let idx = indexOf val (cfg_term cfg)
      in if idx \<noteq> - 1
         then (case entry_id entry of
                 Inl e \<Rightarrow> Inl e
               | Inr i \<Rightarrow>
                   (case contentType_of entry of
                      Inl e \<Rightarrow> Inl e
                    | Inr ct \<Rightarrow>
                        Inr (True, rows @
                          [\<lparr> row_id = i, row_contentType = ct, row_fieldName = fieldName,
                             row_locale = cfg_locale cfg, row_link = entryLink rt cfg i,
                             row_snippet = makeSnippet cfg val idx \<rparr>])))
         else Inr (False, rows))"

subsection \<open>searchContentful\<close>

text \<open>
  The loop over \<open>Object.entries(entry.fields)\<close>: a field whose extracted value is
  falsy (null or the empty string) is passed over, and the loop breaks at the first field
  for which \<open>processStringValue\<close> returns true.
\<close>

fun field_loop ::
  "runtime \<Rightarrow> config \<Rightarrow> jsval \<Rightarrow> (jsstr \<times> jsval) list \<Rightarrow> match_record list
     \<Rightarrow> failure + match_record list" where
  "field_loop rt cfg entry [] rows = Inr rows"
| "field_loop rt cfg entry ((fieldName, fieldValue) # rest) rows =
     (case extractStringContent rt fieldValue fieldName (cfg_locale cfg) of
        None \<Rightarrow> field_loop rt cfg entry rest rows
      | Some val \<Rightarrow>
          if val \<noteq> []
          then (case processStringValue rt cfg entry fieldName val rows of
                  Inl e \<Rightarrow> Inl e
                | Inr (found, rows') \<Rightarrow>
                    if found then Inr rows' else field_loop rt cfg entry rest rows')
          else field_loop rt cfg entry rest rows)"

text \<open>
  The loop over the entries of one page. In debug mode the entry's content type and id
  are read for the log before its fields are. Nothing catches an exception here: it
  leaves the loop, and \<open>searchContentful\<close> with it.
\<close>

definition process_entry ::
  "runtime \<Rightarrow> config \<Rightarrow> jsval \<Rightarrow> match_record list \<Rightarrow> failure + match_record list" where
  "process_entry rt cfg entry rows =
     (case (if DEBUG_MODE cfg then contentType_of entry else Inr JUndefined) of
        Inl e \<Rightarrow> Inl e
      | Inr ct \<Rightarrow>
          (case member entry (ascii ''fields'') of
             Inl e \<Rightarrow> Inl e
           | Inr fs \<Rightarrow>
               (case Object_entries fs of
                  Inl e \<Rightarrow> Inl e
                | Inr kvs \<Rightarrow> field_loop rt cfg entry kvs rows)))"

fun entry_loop ::
  "runtime \<Rightarrow> config \<Rightarrow> jsval list \<Rightarrow> match_record list \<Rightarrow> failure + match_record list" where
  "entry_loop rt cfg [] rows = Inr rows"
| "entry_loop rt cfg (entry # rest) rows =
     (case process_entry rt cfg entry rows of
        Inl e \<Rightarrow> Inl e
      | Inr rows' \<Rightarrow> entry_loop rt cfg rest rows')"

text \<open>
  One answer of \<open>client.getEntries\<close>. The client is a parameter: a function from the
  skip offset of a request (the query, the limit of 1000 and the inclusion depth are the
  same in every request) to a failure or a page. Every request of one run has a different
  offset, so this covers a server whose answers change over time.
\<close>

record response =
  items :: "jsval list"
  total :: int

definition pageSize :: nat where
  "pageSize = 1000"

text \<open>
  The do-while loop. The run is the list of the offsets requested, in order, with the
  rows returned or the failure that ended the run. A server whose total keeps growing
  keeps the loop running: then there is no run (\<open>None\<close>).
\<close>

partial_function (option) page_loop ::
  "runtime \<Rightarrow> config \<Rightarrow> (nat \<Rightarrow> failure + response) \<Rightarrow> nat \<Rightarrow> match_record list \<Rightarrow> nat list
     \<Rightarrow> (nat list \<times> (failure + match_record list)) option" where
  "page_loop rt cfg getEntries skip rows reqs =
     (case getEntries skip of
        Inl e \<Rightarrow> Some (reqs @ [skip], Inl e)
      | Inr r \<Rightarrow>
          (case entry_loop rt cfg (items r) rows of
             Inl e \<Rightarrow> Some (reqs @ [skip], Inl e)
           | Inr rows' \<Rightarrow>
               if int (skip + pageSize) < total r
               then page_loop rt cfg getEntries (skip + pageSize) rows' (reqs @ [skip])
               else Some (reqs @ [skip], Inr rows')))"

declare page_loop.simps [code]

definition searchContentful ::
  "runtime \<Rightarrow> config \<Rightarrow> (nat \<Rightarrow> failure + response)
     \<Rightarrow> (nat list \<times> (failure + match_record list)) option" where
  "searchContentful rt cfg getEntries = page_loop rt cfg getEntries 0 [] []"

text \<open>
  The whole script: a failed check ends it before the client exists, so with no request.
\<close>

definition script ::
  "runtime \<Rightarrow> jsstr list \<Rightarrow> environment \<Rightarrow> (nat \<Rightarrow> failure + response)
     \<Rightarrow> (nat list \<times> (failure + match_record list)) option" where
  "script rt argv env getEntries =
     (case startup argv env of
        Inl e \<Rightarrow> Some ([], Inl e)
      | Inr cfg \<Rightarrow> searchContentful rt cfg getEntries)"

section \<open>The two earlier variants of the script\<close>

text \<open>
  The repository holds two more copies of the script, which log every step. Their
  start-up checks, \<open>entryLink\<close>, \<open>makeSnippet\<close> and page loop are those of index.js
  (both also pass the locale in the query); their rows have no content type and no
  locale; and each wraps the first reads of an entry in a try block. They differ in the
  loop over the fields. They are called variant 1 (the one that calls
  \<open>extractStringContent\<close>) and variant 2 (the one that inspects the field inline).
\<close>

record plain_row =
  pr_id :: jsval
  pr_fieldName :: jsstr
  pr_link :: jsstr
  pr_snippet :: jsstr

text \<open>How one pass through the body of a field loop ends.\<close>

datatype flow =
    Throw failure
  | Break "plain_row list"
  | Continue "plain_row list"
  | Fall_through "plain_row list"

text \<open>
  \<open>a === b\<close>. Two primitives are compared by value. Two objects are compared by
  identity, which a value tree does not have; they are compared by structure here. The
  only use compares entry ids, which are strings.
\<close>

definition strict_equal :: "jsval \<Rightarrow> jsval \<Rightarrow> bool" where
  "strict_equal a b = (a = b)"

text \<open>
  The last statement of both field loops,
  \<open>if (rows.length && rows.at(-1).id === e.sys.id) break;\<close>.
\<close>

definition dedupe_break :: "jsval \<Rightarrow> plain_row list \<Rightarrow> failure + bool" where
  "dedupe_break e rows =
     (if rows = [] then Inr False
      else (case entry_id e of
              Inl err \<Rightarrow> Inl err
            | Inr i \<Rightarrow> Inr (strict_equal (pr_id (last rows)) i)))"

text \<open>
  The try block at the head of both entry loops reads \<open>e.sys.contentType?.sys.id\<close>,
  \<open>e.sys.id\<close> and \<open>Object.keys(e.fields)\<close> for the log. Its catch clause logs the
  error and continues with the next entry.
\<close>

definition entry_check :: "jsval \<Rightarrow> failure + unit" where
  "entry_check e =
     (case contentType_of e of
        Inl err \<Rightarrow> Inl err
      | Inr ct \<Rightarrow>
          (case member e (ascii ''fields'') of
             Inl err \<Rightarrow> Inl err
           | Inr fs \<Rightarrow>
               (case Object_entries fs of
                  Inl err \<Rightarrow> Inl err
                | Inr kvs \<Rightarrow> Inr ())))"

subsection \<open>Variant 1\<close>

definition field_body_1 ::
  "runtime \<Rightarrow> config \<Rightarrow> jsval \<Rightarrow> jsstr \<Rightarrow> jsval \<Rightarrow> plain_row list \<Rightarrow> flow" where
  "field_body_1 rt cfg e fieldName fieldValue rows =
     (case extractStringContent rt fieldValue fieldName (cfg_locale cfg) of
        None \<Rightarrow> Fall_through rows
      | Some val \<Rightarrow>
          if val \<noteq> []
          then (let idx = indexOf val (cfg_term cfg)
                in if idx \<noteq> - 1
                   then (case entry_id e of
                           Inl err \<Rightarrow> Throw err
                         | Inr i \<Rightarrow>
                             Break (rows @
                               [\<lparr> pr_id = i, pr_fieldName = fieldName,
                                  pr_link = entryLink rt cfg i,
                                  pr_snippet = makeSnippet cfg val idx \<rparr>]))
                   else Fall_through rows)
          else Fall_through rows)"

fun field_loop_1 ::
  "runtime \<Rightarrow> config \<Rightarrow> jsval \<Rightarrow> (jsstr \<times> jsval) list \<Rightarrow> plain_row list
     \<Rightarrow> failure + plain_row list" where
  "field_loop_1 rt cfg e [] rows = Inr rows"
| "field_loop_1 rt cfg e ((fieldName, fieldValue) # rest) rows =
     (case field_body_1 rt cfg e fieldName fieldValue rows of
        Throw err \<Rightarrow> Inl err
      | Break rows' \<Rightarrow> Inr rows'
      | Continue rows' \<Rightarrow> field_loop_1 rt cfg e rest rows'
      | Fall_through rows' \<Rightarrow>
          (case dedupe_break e rows' of
             Inl err \<Rightarrow> Inl err
           | Inr b \<Rightarrow> if b then Inr rows' else field_loop_1 rt cfg e rest rows'))"

fun entry_loop_1 ::
  "runtime \<Rightarrow> config \<Rightarrow> jsval list \<Rightarrow> plain_row list \<Rightarrow> failure + plain_row list" where
  "entry_loop_1 rt cfg [] rows = Inr rows"
| "entry_loop_1 rt cfg (e # rest) rows =
     (case entry_check e of
        Inl err \<Rightarrow> entry_loop_1 rt cfg rest rows
      | Inr u \<Rightarrow>
          (case member e (ascii ''fields'') of
             Inl err \<Rightarrow> Inl err
           | Inr fs \<Rightarrow>
               (case Object_entries fs of
                  Inl err \<Rightarrow> Inl err
                | Inr kvs \<Rightarrow>
                    (case field_loop_1 rt cfg e kvs rows of
                       Inl err \<Rightarrow> Inl err
                     | Inr rows' \<Rightarrow> entry_loop_1 rt cfg rest rows'))))"

subsection \<open>Variant 2\<close>

text \<open>Its \<open>processStringValue\<close>, without the character-by-character debug output.\<close>

definition processStringValue_2 ::
  "runtime \<Rightarrow> config \<Rightarrow> jsval \<Rightarrow> jsstr \<Rightarrow> jsstr \<Rightarrow> plain_row list
     \<Rightarrow> failure + (bool \<times> plain_row list)" where
  "processStringValue_2 rt cfg entry fieldName val rows =
     (let idx = indexOf val (cfg_term cfg)
      in if idx \<noteq> - 1
         then (case entry_id entry of
                 Inl e \<Rightarrow> Inl e
               | Inr i \<Rightarrow>
                   Inr (True, rows @
                     [\<lparr> pr_id = i, pr_fieldName = fieldName, pr_link = entryLink rt cfg i,
                        pr_snippet = makeSnippet cfg val idx \<rparr>]))
         else Inr (False, rows))"

text \<open>
  \<open>try { const plainText = documentToPlainTextString(d); processStringValue(e,
  fieldName, plainText, rows); } catch (error) { ... }\<close>: the rows afterwards.
\<close>

definition try_rich_text_2 ::
  "runtime \<Rightarrow> config \<Rightarrow> jsval \<Rightarrow> jsstr \<Rightarrow> jsval \<Rightarrow> plain_row list \<Rightarrow> plain_row list" where
  "try_rich_text_2 rt cfg e fieldName d rows =
     (case documentToPlainTextString rt d of
        None \<Rightarrow> rows
      | Some plainText \<Rightarrow>
          (case processStringValue_2 rt cfg e fieldName plainText rows of
             Inl err \<Rightarrow> rows
           | Inr (found, rows') \<Rightarrow> rows'))"

text \<open>
  The body of the field loop. A plain string and a rich-text document are handed to
  \<open>processStringValue\<close>, whose result is dropped, and the body ends with
  \<open>continue\<close>; only a string under the locale key ends with \<open>break\<close> on a match.
\<close>

definition field_body_2 ::
  "runtime \<Rightarrow> config \<Rightarrow> jsval \<Rightarrow> jsstr \<Rightarrow> jsval \<Rightarrow> plain_row list \<Rightarrow> flow" where
  "field_body_2 rt cfg e fieldName fieldValue rows =
     (if typeof fieldValue = TString
      then (case processStringValue_2 rt cfg e fieldName (str_of fieldValue) rows of
              Inl err \<Rightarrow> Throw err
            | Inr (found, rows') \<Rightarrow> Continue rows')
      else if truthy fieldValue \<and> typeof fieldValue = TObject \<and> \<not> isArray fieldValue
      then (if truthy (get_prop fieldValue nodeType) \<and> truthy (get_prop fieldValue content)
            then Continue (try_rich_text_2 rt cfg e fieldName fieldValue rows)
            else if has_property fieldValue (cfg_locale cfg)
            then (let v = get_prop fieldValue (cfg_locale cfg)
                  in if truthy v \<and> typeof v = TObject \<and>
                        truthy (get_prop v nodeType) \<and> truthy (get_prop v content)
                     then Continue (try_rich_text_2 rt cfg e fieldName v rows)
                     else if typeof v = TString
                     then (let idx = indexOf (str_of v) (cfg_term cfg)
                           in if idx \<noteq> - 1
                              then (case entry_id e of
                                      Inl err \<Rightarrow> Throw err
                                    | Inr i \<Rightarrow>
                                        Break (rows @
                                          [\<lparr> pr_id = i, pr_fieldName = fieldName,
                                             pr_link = entryLink rt cfg i,
                                             pr_snippet = makeSnippet cfg (str_of v) idx \<rparr>]))
                              else Fall_through rows)
                     else Fall_through rows)
            else Fall_through rows)
      else Fall_through rows)"

fun field_loop_2 ::
  "runtime \<Rightarrow> config \<Rightarrow> jsval \<Rightarrow> (jsstr \<times> jsval) list \<Rightarrow> plain_row list
     \<Rightarrow> failure + plain_row list" where
  "field_loop_2 rt cfg e [] rows = Inr rows"
| "field_loop_2 rt cfg e ((fieldName, fieldValue) # rest) rows =
     (case field_body_2 rt cfg e fieldName fieldValue rows of
        Throw err \<Rightarrow> Inl err
      | Break rows' \<Rightarrow> Inr rows'
      | Continue rows' \<Rightarrow> field_loop_2 rt cfg e rest rows'
      | Fall_through rows' \<Rightarrow>
          (case dedupe_break e rows' of
             Inl err \<Rightarrow> Inl err
           | Inr b \<Rightarrow> if b then Inr rows' else field_loop_2 rt cfg e rest rows'))"

fun entry_loop_2 ::
  "runtime \<Rightarrow> config \<Rightarrow> jsval list \<Rightarrow> plain_row list \<Rightarrow> failure + plain_row list" where
  "entry_loop_2 rt cfg [] rows = Inr rows"
| "entry_loop_2 rt cfg (e # rest) rows =
     (case entry_check e of
        Inl err \<Rightarrow> entry_loop_2 rt cfg rest rows
      | Inr u \<Rightarrow>
          (case member e (ascii ''fields'') of
             Inl err \<Rightarrow> Inl err
           | Inr fs \<Rightarrow>
               (case Object_entries fs of
                  Inl err \<Rightarrow> Inl err
                | Inr kvs \<Rightarrow>
                    (case field_loop_2 rt cfg e kvs rows of
                       Inl err \<Rightarrow> Inl err
                     | Inr rows' \<Rightarrow> entry_loop_2 rt cfg rest rows'))))"

section \<open>Notions used to state the properties\<close>

text \<open>The term \<open>t\<close> stands in \<open>v\<close> at offset \<open>i\<close>, code unit for code unit.\<close>

definition occurs_at :: "jsstr \<Rightarrow> jsstr \<Rightarrow> nat \<Rightarrow> bool" where
  "occurs_at t v i = (i + length t \<le> length v \<and> take (length t) (drop i v) = t)"

text \<open>
  The test of the source for a rich-text document: an object with a truthy
  \<open>nodeType\<close> and a truthy \<open>content\<close>.
\<close>

definition is_rich_text :: "jsval \<Rightarrow> bool" where
  "is_rich_text v =
     (truthy v \<and> typeof v = TObject \<and> truthy (get_prop v nodeType) \<and> truthy (get_prop v content))"

text \<open>
  All reads that the script makes of an entry succeed: \<open>sys\<close> is there, a content type
  that is there has its own \<open>sys\<close>, and \<open>fields\<close> is neither undefined nor null.
\<close>

definition readable_entry :: "jsval \<Rightarrow> bool" where
  "readable_entry e = (entry_check e = Inr ())"

text \<open>
  A field matches: its extracted value is truthy and the search term stands in it.
\<close>

definition field_matches :: "runtime \<Rightarrow> config \<Rightarrow> jsstr \<times> jsval \<Rightarrow> bool" where
  "field_matches rt cfg kv =
     (case extractStringContent rt (snd kv) (fst kv) (cfg_locale cfg) of
        None \<Rightarrow> False
      | Some val \<Rightarrow> val \<noteq> [] \<and> indexOf val (cfg_term cfg) \<noteq> - 1)"

text \<open>The entries of the page that the client returns for an offset.\<close>

definition page_items :: "(nat \<Rightarrow> failure + response) \<Rightarrow> nat \<Rightarrow> jsval list" where
  "page_items getEntries s = (case getEntries s of Inl e \<Rightarrow> [] | Inr r \<Rightarrow> items r)"

text \<open>The number of pages for a total: the total over the page size, rounded up, and at least one.\<close>

definition pages :: "int \<Rightarrow> nat" where
  "pages T = max 1 (nat \<lceil>real_of_int T / 1000\<rceil>)"

text \<open>Values used as concrete inputs.\<close>

definition demo_document :: jsval where
  "demo_document =
     JObj [(nodeType, JStr (ascii ''document'')),
           (content, JArr [JObj [(nodeType, JStr (ascii ''text'')),
                                 (ascii ''value'', JStr (ascii ''A Foo here''))]])]"

definition broken_document :: jsval where
  "broken_document = JObj [(nodeType, JStr (ascii ''document'')), (content, JArr [JNull])]"

text \<open>A renderer that renders \<open>demo_document\<close> and throws on every other value.\<close>

definition demo_runtime :: runtime where
  "demo_runtime =
     \<lparr> documentToPlainTextString = (\<lambda>d. if d = demo_document then Some (ascii ''A Foo here'') else None),
       ToString_other = (\<lambda>v. ascii ''[object Object]'') \<rparr>"

definition demo_config :: config where
  "demo_config =
     \<lparr> cfg_term = ascii ''Foo'', cfg_locale = ascii ''en-US'', SPACE_ID = ascii ''space'',
       CPA_TOKEN = ascii ''token'', ENVIRONMENT_ID = Some (ascii ''master''), DEBUG_MODE = False \<rparr>"

definition entry_with :: "string \<Rightarrow> (jsstr \<times> jsval) list \<Rightarrow> jsval" where
  "entry_with i fs = JObj [(ascii ''sys'', JObj [(ascii ''id'', JStr (ascii i))]), (ascii ''fields'', JObj fs)]"

definition demo_environment :: environment where
  "demo_environment =
     \<lparr> env_SPACE_ID = Some (ascii ''space''), env_CPA_TOKEN = Some (ascii ''token''),
       env_ENVIRONMENT_ID = Some (ascii ''master''), env_DEBUG_MODE = None \<rparr>"

text \<open>A server with one entry, whose title is a plain string, and a server with 2500 such entries.\<close>

definition one_entry_client :: "nat \<Rightarrow> failure + response" where
  "one_entry_client s =
     Inr \<lparr> items = take pageSize (drop s [entry_with ''e1'' [(ascii ''title'', JStr (ascii ''Foo''))]]),
           total = 1 \<rparr>"

definition big_client :: "nat \<Rightarrow> failure + response" where
  "big_client s =
     Inr \<lparr> items = take pageSize (drop s (replicate 2500 (entry_with ''e1'' [(ascii ''title'', JStr (ascii ''foo''))]))),
           total = 2500 \<rparr>"

text \<open>An entry with two plain string fields that both hold the search term.\<close>

definition two_matches_entry :: jsval where
  "two_matches_entry =
     entry_with ''e1'' [(ascii ''title'', JStr (ascii ''Foo'')), (ascii ''body'', JStr (ascii ''a Foo b''))]"

text \<open>A page whose first entry has no \<open>fields\<close> and whose second entry matches.\<close>

definition entry_without_fields :: jsval where
  "entry_without_fields = JObj [(ascii ''sys'', JObj [(ascii ''id'', JStr (ascii ''a''))])]"

definition mixed_page :: "jsval list" where
  "mixed_page = [entry_without_fields, entry_with ''b'' [(ascii ''title'', JStr (ascii ''Foo''))]]"

definition mixed_client :: "nat \<Rightarrow> failure + response" where
  "mixed_client s = Inr \<lparr> items = take pageSize (drop s mixed_page), total = 2 \<rparr>"

text \<open>An environment in which \<open>ENVIRONMENT_ID\<close> is not set.\<close>

definition environment_without_id :: environment where
  "environment_without_id =
     \<lparr> env_SPACE_ID = Some (ascii ''space''), env_CPA_TOKEN = Some (ascii ''token''),
       env_ENVIRONMENT_ID = None, env_DEBUG_MODE = None \<rparr>"

definition long_text :: jsstr where
  "long_text = ascii ''The quick brown fox jumps over the lazy dog; then Foo was found here, and the sentence went on for some time''"

section \<open>Strings\<close>

declare dec.simps [simp del]

lemma ascii_length: "length (ascii s) = length s"
  by (simp add: ascii_def)

lemma occurs_at_Cons: "occurs_at t (c # cs) (Suc i) = occurs_at t cs i"
  by (simp add: occurs_at_def)

lemma occurs_at_0: "occurs_at t v 0 = (take (length t) v = t)"
proof -
  have "take (length t) v = t \<Longrightarrow> length t \<le> length v"
  proof -
    assume "take (length t) v = t"
    then have "length (take (length t) v) = length t" by simp
    then show ?thesis by simp
  qed
  then show ?thesis by (auto simp: occurs_at_def)
qed

lemma occurs_at_append: "occurs_at t (pre @ t @ post) (length pre)"
  by (simp add: occurs_at_def)

lemma occurs_at_split:
  assumes "occurs_at t v i"
  shows "v = take i v @ t @ drop (i + length t) v"
proof -
  have "take (length t) (drop i v) @ drop (length t) (drop i v) = drop i v"
    by (rule append_take_drop_id)
  moreover have "take (length t) (drop i v) = t" using assms by (simp add: occurs_at_def)
  moreover have "drop (length t) (drop i v) = drop (i + length t) v" by (simp add: add.commute)
  ultimately have "drop i v = t @ drop (i + length t) v" by simp
  moreover have "v = take i v @ drop i v" by simp
  ultimately show ?thesis by simp
qed

lemma occurs_at_iff_split: "(\<exists>i. occurs_at t v i) = (\<exists>pre post. v = pre @ t @ post)"
  using occurs_at_split occurs_at_append by metis

text \<open>\<open>indexOf\<close> answers \<open>-1\<close> exactly when the term stands nowhere, and otherwise the least offset.\<close>

lemma indexOf_at_none:
  "(\<forall>i. \<not> occurs_at t v i) \<Longrightarrow> indexOf_at v t k = - 1"
proof (induction v arbitrary: k)
  case Nil
  then show ?case using occurs_at_0[of t "[]"] by auto
next
  case (Cons c cs)
  from Cons.prems have "\<not> occurs_at t (c # cs) 0" by blast
  then have n0: "take (length t) (c # cs) \<noteq> t" by (simp add: occurs_at_0)
  from Cons.prems have "\<forall>i. \<not> occurs_at t cs i" using occurs_at_Cons by blast
  then show ?case using Cons.IH n0 by simp
qed

lemma indexOf_at_least:
  "occurs_at t v i \<Longrightarrow>
     \<exists>j\<le>i. indexOf_at v t k = int (k + j) \<and> occurs_at t v j \<and> (\<forall>j'<j. \<not> occurs_at t v j')"
proof (induction v arbitrary: k i)
  case Nil
  then show ?case by (auto simp: occurs_at_def)
next
  case (Cons c cs)
  show ?case
  proof (cases "take (length t) (c # cs) = t")
    case True
    then have "occurs_at t (c # cs) 0" by (simp add: occurs_at_0)
    with True show ?thesis by (intro exI[of _ 0]) simp
  next
    case False
    then have n0: "\<not> occurs_at t (c # cs) 0" by (simp add: occurs_at_0)
    with Cons.prems obtain i' where i': "i = Suc i'" by (cases i) auto
    with Cons.prems have "occurs_at t cs i'" by (simp add: occurs_at_Cons)
    from Cons.IH[OF this, of "Suc k"] obtain j where
      j: "j \<le> i'" "indexOf_at cs t (Suc k) = int (Suc k + j)" "occurs_at t cs j"
         "\<forall>j'<j. \<not> occurs_at t cs j'" by blast
    have "\<forall>j'<Suc j. \<not> occurs_at t (c # cs) j'"
    proof (intro allI impI)
      fix j' assume "j' < Suc j"
      then show "\<not> occurs_at t (c # cs) j'"
        using n0 j(4) by (cases j') (auto simp: occurs_at_Cons)
    qed
    with j i' False show ?thesis
      by (intro exI[of _ "Suc j"]) (simp add: occurs_at_Cons)
  qed
qed

lemma indexOf_least:
  assumes "occurs_at t v i"
  shows "\<exists>j\<le>i. indexOf v t = int j \<and> occurs_at t v j \<and> (\<forall>j'<j. \<not> occurs_at t v j')"
  using indexOf_at_least[OF assms, of 0] by (simp add: indexOf_def)

lemma indexOf_none: "(\<forall>i. \<not> occurs_at t v i) \<Longrightarrow> indexOf v t = - 1"
  by (simp add: indexOf_def indexOf_at_none)

lemma indexOf_found_iff: "(indexOf v t \<noteq> - 1) = (\<exists>i. occurs_at t v i)"
proof
  assume "indexOf v t \<noteq> - 1"
  then show "\<exists>i. occurs_at t v i" using indexOf_none by blast
next
  assume "\<exists>i. occurs_at t v i"
  then obtain i where "occurs_at t v i" ..
  from indexOf_least[OF this] obtain j where "indexOf v t = int j" by blast
  then show "indexOf v t \<noteq> - 1" by simp
qed

text \<open>\<open>slice\<close> between two positions that are in order is the piece of the string between them.\<close>

lemma js_slice_nat:
  "a \<le> b \<Longrightarrow> js_slice s (int a) (int b) = take (b - a) (drop a s)"
  by (auto simp: js_slice_def Let_def min_def nat_diff_distrib' not_le)

lemma makeSnippet_nat:
  "makeSnippet cfg s (int i) =
     (if 30 < i then ellipsis else []) @ drop (i - 30) (take i s) @ ascii ''['' @ cfg_term cfg @
     ascii '']'' @ take 30 (drop (i + length (cfg_term cfg)) s) @
     (if 30 < length s - (i + length (cfg_term cfg)) then ellipsis else [])"
proof -
  have m: "max 0 (int i - 30) = int (i - 30)" by simp
  have pre: "js_slice s (max 0 (int i - 30)) (int i) = drop (i - 30) (take i s)"
    unfolding m by (simp add: js_slice_nat drop_take)
  have "int i + int (length (cfg_term cfg)) = int (i + length (cfg_term cfg))" by simp
  moreover have "int i + int (length (cfg_term cfg)) + 30 = int (i + length (cfg_term cfg) + 30)"
    by simp
  ultimately have post:
    "js_slice s (int i + int (length (cfg_term cfg))) (int i + int (length (cfg_term cfg)) + 30)
       = take 30 (drop (i + length (cfg_term cfg)) s)"
    using js_slice_nat[of "i + length (cfg_term cfg)" "i + length (cfg_term cfg) + 30" s] by simp
  have tr: "(int i + int (length (cfg_term cfg)) + 30 < int (length s))
              = (30 < length s - (i + length (cfg_term cfg)))"
    by auto
  show ?thesis
    unfolding makeSnippet_def Let_def pre post tr by simp
qed

section \<open>Snippets\<close>

text \<open>
  C2. For a string \<open>txt\<close> in which the search term stands at offset \<open>i\<close>, the snippet is:
  an ellipsis exactly when \<open>i\<close> exceeds 30; the characters of \<open>txt\<close> before the match, the
  last 30 of them when there are more; the term between square brackets; the characters
  of \<open>txt\<close> after the match, the first 30 of them when there are more; and an ellipsis
  exactly when more than 30 characters follow the match. The last part of the statement
  says that the two pieces of context are the ones next to the match in \<open>txt\<close>.
\<close>

theorem makeSnippet_window:
  assumes "occurs_at (cfg_term cfg) txt i"
  shows "makeSnippet cfg txt (int i) =
           (if 30 < i then ellipsis else []) @ drop (i - 30) (take i txt) @ ascii ''['' @
           cfg_term cfg @ ascii '']'' @ take 30 (drop (i + length (cfg_term cfg)) txt) @
           (if 30 < length txt - (i + length (cfg_term cfg)) then ellipsis else [])
       \<and> length (drop (i - 30) (take i txt)) = min i 30
       \<and> length (take 30 (drop (i + length (cfg_term cfg)) txt))
           = min 30 (length txt - (i + length (cfg_term cfg)))
       \<and> txt = take (i - 30) txt @ drop (i - 30) (take i txt) @ cfg_term cfg @
               take 30 (drop (i + length (cfg_term cfg)) txt) @
               drop (i + length (cfg_term cfg) + 30) txt"
proof (intro conjI)
  show "makeSnippet cfg txt (int i) =
           (if 30 < i then ellipsis else []) @ drop (i - 30) (take i txt) @ ascii ''['' @
           cfg_term cfg @ ascii '']'' @ take 30 (drop (i + length (cfg_term cfg)) txt) @
           (if 30 < length txt - (i + length (cfg_term cfg)) then ellipsis else [])"
    by (rule makeSnippet_nat)
  have le: "i + length (cfg_term cfg) \<le> length txt" using assms by (simp add: occurs_at_def)
  then show "length (drop (i - 30) (take i txt)) = min i 30" by auto
  show "length (take 30 (drop (i + length (cfg_term cfg)) txt))
          = min 30 (length txt - (i + length (cfg_term cfg)))"
    by simp
  have a: "take i txt = take (i - 30) txt @ drop (i - 30) (take i txt)"
    by (metis append_take_drop_id diff_le_self min.absorb1 take_take)
  have b: "drop (i + length (cfg_term cfg)) txt =
        take 30 (drop (i + length (cfg_term cfg)) txt) @ drop (i + length (cfg_term cfg) + 30) txt"
    by (metis add.commute append_take_drop_id drop_drop)
  have "txt = take i txt @ cfg_term cfg @ drop (i + length (cfg_term cfg)) txt"
    using occurs_at_split[OF assms] .
  then show "txt = take (i - 30) txt @ drop (i - 30) (take i txt) @ cfg_term cfg @
               take 30 (drop (i + length (cfg_term cfg)) txt) @
               drop (i + length (cfg_term cfg) + 30) txt"
    using a b by (metis append.assoc)
qed

theorem makeSnippet_window_witness:
  "occurs_at (cfg_term demo_config) long_text 50
   \<and> makeSnippet demo_config long_text 50 =
       ellipsis @ ascii ''jumps over the lazy dog; then '' @ ascii ''['' @ ascii ''Foo'' @ ascii '']'' @
       ascii '' was found here, and the sente'' @ ellipsis"
proof -
  have h: "occurs_at (cfg_term demo_config) long_text 50"
    by (simp add: occurs_at_def demo_config_def long_text_def ascii_def)
  have pre: "drop 20 (take 50 long_text) = ascii ''jumps over the lazy dog; then ''"
    by (simp add: long_text_def ascii_def)
  have post: "take 30 (drop 53 long_text) = ascii '' was found here, and the sente''"
    by (simp add: long_text_def ascii_def)
  have len: "length long_text = 108" "cfg_term demo_config = ascii ''Foo''"
    by (simp_all add: long_text_def ascii_def demo_config_def)
  from makeSnippet_window[OF h] have
    "makeSnippet demo_config long_text (int 50) =
       (if 30 < (50::nat) then ellipsis else []) @ drop (50 - 30) (take 50 long_text) @ ascii ''['' @
       cfg_term demo_config @ ascii '']'' @ take 30 (drop (50 + length (cfg_term demo_config)) long_text) @
       (if 30 < length long_text - (50 + length (cfg_term demo_config)) then ellipsis else [])"
    by blast
  then have "makeSnippet demo_config long_text 50 =
       ellipsis @ ascii ''jumps over the lazy dog; then '' @ ascii ''['' @ ascii ''Foo'' @ ascii '']'' @
       ascii '' was found here, and the sente'' @ ellipsis"
    by (simp add: len ascii_length pre post)
  with h show ?thesis by simp
qed

section \<open>The match test\<close>

lemma processStringValue_found:
  assumes "indexOf val (cfg_term cfg) = int k" and "entry_id entry = Inr i"
    and "contentType_of entry = Inr ct"
  shows "processStringValue rt cfg entry fieldName val rows =
           Inr (True, rows @
             [\<lparr> row_id = i, row_contentType = ct, row_fieldName = fieldName,
                row_locale = cfg_locale cfg, row_link = entryLink rt cfg i,
                row_snippet = makeSnippet cfg val (int k) \<rparr>])"
  using assms by (simp add: processStringValue_def)

lemma processStringValue_not_found:
  assumes "indexOf val (cfg_term cfg) = - 1"
  shows "processStringValue rt cfg entry fieldName val rows = Inr (False, rows)"
  using assms by (simp add: processStringValue_def)

text \<open>
  The loop over the fields passes over every field that does not match and stops at the
  first one that does, with the row of that field; the fields after it play no part.
\<close>

lemma field_loop_no_match:
  assumes "\<forall>kv\<in>set kvs. \<not> field_matches rt cfg kv"
  shows "field_loop rt cfg entry kvs rows = Inr rows"
  using assms
proof (induction kvs)
  case Nil
  then show ?case by simp
next
  case (Cons kv kvs)
  obtain fieldName fieldValue where kv: "kv = (fieldName, fieldValue)" by (cases kv)
  from Cons.prems kv have "\<not> field_matches rt cfg (fieldName, fieldValue)" by simp
  moreover from Cons have "field_loop rt cfg entry kvs rows = Inr rows" by simp
  ultimately show ?case using kv
    by (auto simp: field_matches_def processStringValue_def split: option.splits)
qed

lemma field_loop_first_match:
  assumes "\<forall>kv\<in>set before. \<not> field_matches rt cfg kv"
    and "extractStringContent rt fieldValue fieldName (cfg_locale cfg) = Some val"
    and "val \<noteq> []" and "indexOf val (cfg_term cfg) \<noteq> - 1"
    and "entry_id entry = Inr i" and "contentType_of entry = Inr ct"
  shows "field_loop rt cfg entry (before @ (fieldName, fieldValue) # rest) rows =
           Inr (rows @
             [\<lparr> row_id = i, row_contentType = ct, row_fieldName = fieldName,
                row_locale = cfg_locale cfg, row_link = entryLink rt cfg i,
                row_snippet = makeSnippet cfg val (indexOf val (cfg_term cfg)) \<rparr>])"
  using assms(1)
proof (induction before)
  case Nil
  from assms(2-6) show ?case by (simp add: processStringValue_def)
next
  case (Cons kv before)
  obtain n v where kv: "kv = (n, v)" by (cases kv)
  from Cons.prems kv have "\<not> field_matches rt cfg (n, v)" by simp
  moreover from Cons have
    "field_loop rt cfg entry (before @ (fieldName, fieldValue) # rest) rows =
           Inr (rows @
             [\<lparr> row_id = i, row_contentType = ct, row_fieldName = fieldName,
                row_locale = cfg_locale cfg, row_link = entryLink rt cfg i,
                row_snippet = makeSnippet cfg val (indexOf val (cfg_term cfg)) \<rparr>])"
    by simp
  ultimately show ?case using kv
    by (auto simp: field_matches_def processStringValue_def split: option.splits)
qed

text \<open>
  C10. When the search term stands in the normalized string (here at some offset \<open>j\<close>,
  maybe among others) and the entry's id and content type can be read, a record is
  made, and its snippet is built around the least offset \<open>k\<close> at which the term stands:
  it is the characters of the string before offset \<open>k\<close> (the last 30 of them, after an
  ellipsis, when there are more), the term in square brackets, and the characters after
  that occurrence (the first 30 of them, before an ellipsis, when there are more).
\<close>

theorem snippet_around_leftmost:
  assumes "occurs_at (cfg_term cfg) val j" and "entry_id entry = Inr i"
    and "contentType_of entry = Inr ct"
  shows "\<exists>k\<le>j. occurs_at (cfg_term cfg) val k \<and> (\<forall>k'<k. \<not> occurs_at (cfg_term cfg) val k') \<and>
           val = take k val @ cfg_term cfg @ drop (k + length (cfg_term cfg)) val \<and>
           makeSnippet cfg val (int k) =
             (if 30 < k then ellipsis else []) @ drop (k - 30) (take k val) @ ascii ''['' @
             cfg_term cfg @ ascii '']'' @ take 30 (drop (k + length (cfg_term cfg)) val) @
             (if 30 < length val - (k + length (cfg_term cfg)) then ellipsis else []) \<and>
           processStringValue rt cfg entry fieldName val rows =
             Inr (True, rows @
               [\<lparr> row_id = i, row_contentType = ct, row_fieldName = fieldName,
                  row_locale = cfg_locale cfg, row_link = entryLink rt cfg i,
                  row_snippet =
                    (if 30 < k then ellipsis else []) @ drop (k - 30) (take k val) @ ascii ''['' @
                    cfg_term cfg @ ascii '']'' @ take 30 (drop (k + length (cfg_term cfg)) val) @
                    (if 30 < length val - (k + length (cfg_term cfg)) then ellipsis else []) \<rparr>])"
proof -
  from indexOf_least[OF assms(1)] obtain k where
    k: "k \<le> j" "indexOf val (cfg_term cfg) = int k" "occurs_at (cfg_term cfg) val k"
       "\<forall>k'<k. \<not> occurs_at (cfg_term cfg) val k'" by blast
  have parts: "val = take k val @ cfg_term cfg @ drop (k + length (cfg_term cfg)) val"
    using occurs_at_split[OF k(3)] .
  have window: "makeSnippet cfg val (int k) =
             (if 30 < k then ellipsis else []) @ drop (k - 30) (take k val) @ ascii ''['' @
             cfg_term cfg @ ascii '']'' @ take 30 (drop (k + length (cfg_term cfg)) val) @
             (if 30 < length val - (k + length (cfg_term cfg)) then ellipsis else [])"
    by (rule makeSnippet_nat)
  have row: "processStringValue rt cfg entry fieldName val rows =
             Inr (True, rows @
               [\<lparr> row_id = i, row_contentType = ct, row_fieldName = fieldName,
                  row_locale = cfg_locale cfg, row_link = entryLink rt cfg i,
                  row_snippet =
                    (if 30 < k then ellipsis else []) @ drop (k - 30) (take k val) @ ascii ''['' @
                    cfg_term cfg @ ascii '']'' @ take 30 (drop (k + length (cfg_term cfg)) val) @
                    (if 30 < length val - (k + length (cfg_term cfg)) then ellipsis else []) \<rparr>])"
    using processStringValue_found[OF k(2) assms(2) assms(3), of rt fieldName rows]
    unfolding window .
  from k(1) k(3) k(4) parts window row show ?thesis by blast
qed

theorem snippet_around_leftmost_witness:
  "occurs_at (cfg_term demo_config) (ascii ''xxFoo and Foo'') 10
   \<and> entry_id (entry_with ''e1'' []) = Inr (JStr (ascii ''e1''))
   \<and> contentType_of (entry_with ''e1'' []) = Inr (JStr (ascii ''Unknown''))
   \<and> (\<exists>r. processStringValue demo_runtime demo_config (entry_with ''e1'' []) (ascii ''title'')
              (ascii ''xxFoo and Foo'') [] = Inr (True, [r])
          \<and> row_snippet r = ascii ''xx[Foo] and Foo'')"
proof -
  let ?v = "ascii ''xxFoo and Foo''"
  have h1: "occurs_at (cfg_term demo_config) ?v 10"
    by (simp add: occurs_at_def demo_config_def ascii_def)
  have h2: "entry_id (entry_with ''e1'' []) = Inr (JStr (ascii ''e1''))"
    by (simp add: entry_id_def entry_with_def member_def get_prop_def ascii_def)
  have h3: "contentType_of (entry_with ''e1'' []) = Inr (JStr (ascii ''Unknown''))"
    by (simp add: contentType_of_def entry_with_def member_def get_prop_def ascii_def
        inherited_def Object_prototype_methods_def)
  have n0: "\<not> occurs_at (cfg_term demo_config) ?v 0"
    and n1: "\<not> occurs_at (cfg_term demo_config) ?v 1"
    and o2: "occurs_at (cfg_term demo_config) ?v 2"
    by (simp_all add: occurs_at_def demo_config_def ascii_def)
  from snippet_around_leftmost[OF h1 h2 h3, of demo_runtime "ascii ''title''" "[]"]
  obtain k where k: "occurs_at (cfg_term demo_config) ?v k"
    "\<forall>k'<k. \<not> occurs_at (cfg_term demo_config) ?v k'"
    "processStringValue demo_runtime demo_config (entry_with ''e1'' []) (ascii ''title'') ?v [] =
     Inr (True, [] @
       [\<lparr> row_id = JStr (ascii ''e1''), row_contentType = JStr (ascii ''Unknown''),
          row_fieldName = ascii ''title'', row_locale = cfg_locale demo_config,
          row_link = entryLink demo_runtime demo_config (JStr (ascii ''e1'')),
          row_snippet =
            (if 30 < k then ellipsis else []) @ drop (k - 30) (take k ?v) @ ascii ''['' @
            cfg_term demo_config @ ascii '']'' @
            take 30 (drop (k + length (cfg_term demo_config)) ?v) @
            (if 30 < length ?v - (k + length (cfg_term demo_config)) then ellipsis else []) \<rparr>])"
    by blast
  from k(2) o2 have "k \<le> 2" by (meson not_le)
  moreover have "k \<noteq> 0" using k(1) n0 by (intro notI) simp
  moreover have "k \<noteq> 1" using k(1) n1 by (intro notI) simp
  ultimately have k2: "k = 2" by linarith
  have "(if 30 < (2::nat) then ellipsis else []) @ drop (2 - 30) (take 2 ?v) @ ascii ''['' @
          cfg_term demo_config @ ascii '']'' @
          take 30 (drop (2 + length (cfg_term demo_config)) ?v) @
          (if 30 < length ?v - (2 + length (cfg_term demo_config)) then ellipsis else [])
        = ascii ''xx[Foo] and Foo''"
    by (simp add: demo_config_def ascii_def)
  with k(3) k2 h1 h2 h3 show ?thesis by simp
qed

text \<open>
  C6. With the search term "Foo": the string "foo" gives no record, and neither does any
  string in which "Foo" does not stand code unit for code unit; every string in which
  "Foo" stands gives one record, for the field at hand. The same holds for a whole entry
  field that is such a string. Nothing here looks at why the server returned the entry.
\<close>

theorem match_is_case_sensitive:
  assumes "cfg_term cfg = ascii ''Foo''" and "entry_id entry = Inr i"
    and "contentType_of entry = Inr ct"
  shows "processStringValue rt cfg entry fieldName (ascii ''foo'') rows = Inr (False, rows)
       \<and> (\<forall>v. (\<forall>pre post. v \<noteq> pre @ ascii ''Foo'' @ post) \<longrightarrow>
              processStringValue rt cfg entry fieldName v rows = Inr (False, rows))
       \<and> (\<forall>pre post. \<exists>r.
              processStringValue rt cfg entry fieldName (pre @ ascii ''Foo'' @ post) rows
                = Inr (True, rows @ [r]) \<and> row_fieldName r = fieldName)
       \<and> field_loop rt cfg entry [(fieldName, JStr (ascii ''foo''))] rows = Inr rows
       \<and> (\<forall>pre post. \<exists>r.
              field_loop rt cfg entry [(fieldName, JStr (pre @ ascii ''Foo'' @ post))] rows
                = Inr (rows @ [r]) \<and> row_fieldName r = fieldName)"
proof -
  have foo: "indexOf (ascii ''foo'') (cfg_term cfg) = - 1"
    by (simp add: assms(1) indexOf_def ascii_def)
  then have a: "processStringValue rt cfg entry fieldName (ascii ''foo'') rows = Inr (False, rows)"
    by (rule processStringValue_not_found)
  have b: "processStringValue rt cfg entry fieldName v rows = Inr (False, rows)"
    if "\<forall>pre post. v \<noteq> pre @ ascii ''Foo'' @ post" for v
  proof -
    from that have "\<forall>k. \<not> occurs_at (cfg_term cfg) v k"
      using occurs_at_iff_split[of "cfg_term cfg" v] assms(1) by auto
    then have "indexOf v (cfg_term cfg) = - 1" by (rule indexOf_none)
    then show ?thesis by (rule processStringValue_not_found)
  qed
  have c: "\<exists>r. processStringValue rt cfg entry fieldName (pre @ ascii ''Foo'' @ post) rows
                = Inr (True, rows @ [r]) \<and> row_fieldName r = fieldName" for pre post
  proof -
    have "occurs_at (cfg_term cfg) (pre @ ascii ''Foo'' @ post) (length pre)"
      using occurs_at_append[of "ascii ''Foo''" pre post] assms(1) by simp
    from indexOf_least[OF this] obtain k where
      "indexOf (pre @ ascii ''Foo'' @ post) (cfg_term cfg) = int k" by blast
    from processStringValue_found[OF this assms(2) assms(3)] show ?thesis by simp
  qed
  have d: "field_loop rt cfg entry [(fieldName, JStr (ascii ''foo''))] rows = Inr rows"
    using a by (simp add: extractStringContent_def ascii_def)
  have e: "\<exists>r. field_loop rt cfg entry [(fieldName, JStr (pre @ ascii ''Foo'' @ post))] rows
                = Inr (rows @ [r]) \<and> row_fieldName r = fieldName" for pre post
  proof -
    from c[of pre post] obtain r where
      "processStringValue rt cfg entry fieldName (pre @ ascii ''Foo'' @ post) rows
         = Inr (True, rows @ [r])" "row_fieldName r = fieldName" by blast
    then show ?thesis by (simp add: extractStringContent_def ascii_def)
  qed
  from a b c d e show ?thesis by blast
qed

theorem match_is_case_sensitive_witness:
  "cfg_term demo_config = ascii ''Foo''
   \<and> entry_id (entry_with ''e1'' []) = Inr (JStr (ascii ''e1''))
   \<and> contentType_of (entry_with ''e1'' []) = Inr (JStr (ascii ''Unknown''))
   \<and> processStringValue demo_runtime demo_config (entry_with ''e1'' []) (ascii ''title'')
       (ascii ''foo'') [] = Inr (False, [])
   \<and> (\<exists>r. processStringValue demo_runtime demo_config (entry_with ''e1'' []) (ascii ''title'')
              (ascii ''say '' @ ascii ''Foo'' @ ascii '' now'') [] = Inr (True, [r]))"
proof -
  have h1: "cfg_term demo_config = ascii ''Foo''" by (simp add: demo_config_def)
  have h2: "entry_id (entry_with ''e1'' []) = Inr (JStr (ascii ''e1''))"
    by (simp add: entry_id_def entry_with_def member_def get_prop_def ascii_def)
  have h3: "contentType_of (entry_with ''e1'' []) = Inr (JStr (ascii ''Unknown''))"
    by (simp add: contentType_of_def entry_with_def member_def get_prop_def ascii_def
        inherited_def Object_prototype_methods_def)
  from match_is_case_sensitive[OF h1 h2 h3, of demo_runtime "ascii ''title''" "[]"]
  have "processStringValue demo_runtime demo_config (entry_with ''e1'' []) (ascii ''title'')
          (ascii ''foo'') [] = Inr (False, [])"
    and "\<exists>r. processStringValue demo_runtime demo_config (entry_with ''e1'' []) (ascii ''title'')
              (ascii ''say '' @ ascii ''Foo'' @ ascii '' now'') [] = Inr (True, [] @ [r])"
    by blast+
  with h1 h2 h3 show ?thesis by simp
qed

section \<open>extractStringContent\<close>

text \<open>An index of an array is written in digits, so it is never the name \<open>nodeType\<close>.\<close>

lemma digit_unat: "m < 10 \<Longrightarrow> unat (of_nat (48 + m) :: 16 word) = 48 + m"
  unfolding unat_of_nat by simp

lemma dec_digits: "c \<in> set (dec n) \<Longrightarrow> unat c < 58"
proof (induction n arbitrary: c rule: dec.induct)
  case (1 n)
  show ?case
  proof (cases "n < 10")
    case True
    with "1.prems" have "c = of_nat (48 + n)" by (subst (asm) dec.simps) simp
    with True show ?thesis using digit_unat[of n] by simp
  next
    case False
    with "1.prems" have "c \<in> set (dec (n div 10)) \<or> c = of_nat (48 + n mod 10)"
      by (subst (asm) dec.simps) auto
    then show ?thesis
    proof
      assume "c \<in> set (dec (n div 10))"
      with "1.IH" False show ?thesis by simp
    next
      assume c: "c = of_nat (48 + n mod 10)"
      have "n mod 10 < 10" by simp
      from digit_unat[OF this] c show ?thesis by simp
    qed
  qed
qed

lemma dec_not_nodeType: "dec n \<noteq> nodeType"
proof
  assume "dec n = nodeType"
  then have "(110 :: 16 word) \<in> set (dec n)" by (simp add: nodeType_def ascii_def)
  from dec_digits[OF this] show False by simp
qed

lemma inherited_nodeType: "inherited nodeType = None"
  by (simp add: inherited_def Object_prototype_methods_def nodeType_def ascii_def)

lemma array_has_no_nodeType: "get_prop (JArr xs) nodeType = JUndefined"
proof -
  have "nodeType \<notin> set (map dec [0..<length xs])"
    using dec_not_nodeType by (auto simp: image_iff) metis
  then have m: "map_of (zip (map dec [0..<length xs]) xs) nodeType = None"
    by (simp add: map_of_zip_is_None)
  have n: "nodeType \<noteq> ascii ''length''" by (simp add: nodeType_def ascii_def)
  show ?thesis
    unfolding get_prop_def own_enumerable.simps m using n by (simp add: inherited_nodeType)
qed

lemma array_not_rich_text: "\<not> is_rich_text (JArr xs)"
  by (simp add: is_rich_text_def array_has_no_nodeType)

text \<open>An object with a node type that is a non-empty string and a content array passes the test.\<close>

lemma document_is_rich_text:
  assumes "map_of kvs nodeType = Some (JStr t)" and "t \<noteq> []" and "map_of kvs content = Some (JArr c)"
  shows "is_rich_text (JObj kvs)"
  using assms by (simp add: is_rich_text_def get_prop_def)

lemma is_rich_text_object: "is_rich_text v \<Longrightarrow> \<exists>kvs. v = JObj kvs"
  by (cases v) (simp_all add: is_rich_text_def array_has_no_nodeType)

text \<open>What a plain object inherits is a method or \<open>Object.prototype\<close>: no string, no document.\<close>

lemma inherited_not_searchable:
  assumes "inherited k = Some v"
  shows "typeof v \<noteq> TString \<and> \<not> is_rich_text v"
proof -
  have "v = JFunction \<or> v = JObj (map (\<lambda>m. (m, JFunction)) Object_prototype_methods)"
    using assms by (auto simp: inherited_def split: if_splits)
  moreover have "map_of (map (\<lambda>m. (m, JFunction)) Object_prototype_methods) nodeType = None"
    by (simp add: Object_prototype_methods_def nodeType_def ascii_def)
  then have "get_prop (JObj (map (\<lambda>m. (m, JFunction)) Object_prototype_methods)) nodeType = JUndefined"
    using inherited_nodeType by (simp add: get_prop_def nodeType_def ascii_def)
  ultimately show ?thesis by (auto simp: is_rich_text_def)
qed

lemma extract_rich_text:
  assumes "is_rich_text d"
  shows "extractStringContent rt d fieldName loc = documentToPlainTextString rt d"
proof -
  from is_rich_text_object[OF assms] obtain kvs where "d = JObj kvs" ..
  with assms show ?thesis by (simp add: extractStringContent_def is_rich_text_def)
qed

lemma extract_locale_map:
  assumes "\<not> is_rich_text (JObj kvs)"
  shows "extractStringContent rt (JObj kvs) fieldName loc =
           (if has_property (JObj kvs) loc
            then (if is_rich_text (get_prop (JObj kvs) loc)
                  then documentToPlainTextString rt (get_prop (JObj kvs) loc)
                  else if typeof (get_prop (JObj kvs) loc) = TString
                  then Some (str_of (get_prop (JObj kvs) loc))
                  else None)
            else None)"
  using assms by (auto simp: extractStringContent_def is_rich_text_def Let_def)

lemma get_own: "map_of kvs k = Some v \<Longrightarrow> get_prop (JObj kvs) k = v"
  by (simp add: get_prop_def)

lemma has_own: "map_of kvs k = Some v \<Longrightarrow> has_property (JObj kvs) k"
  by (simp add: has_property_def)

lemma get_not_own:
  assumes "map_of kvs k = None"
  shows "get_prop (JObj kvs) k = (case inherited k of Some x \<Rightarrow> x | None \<Rightarrow> JUndefined)"
  using assms by (simp add: get_prop_def)

lemma extract_locale_absent:
  assumes "\<not> is_rich_text (JObj kvs)" and "map_of kvs loc = None"
  shows "extractStringContent rt (JObj kvs) fieldName loc = None"
proof (cases "inherited loc")
  case None
  with assms(2) have "\<not> has_property (JObj kvs) loc" by (simp add: has_property_def)
  with assms(1) show ?thesis by (simp add: extract_locale_map)
next
  case (Some v)
  with assms(2) have "get_prop (JObj kvs) loc = v" by (simp add: get_not_own)
  with inherited_not_searchable[OF Some] assms(1) show ?thesis
    by (simp add: extract_locale_map)
qed

text \<open>
  C7. For an object that is not a rich-text document: when the locale is not one of its
  keys the result is null; when the value under the locale key is a string the result is
  that string; when the value under the locale key is neither a string nor a rich-text
  document the result is null.
\<close>

theorem locale_map_normalization:
  assumes "\<not> is_rich_text (JObj kvs)"
  shows "(map_of kvs loc = None \<longrightarrow> extractStringContent rt (JObj kvs) fieldName loc = None)
       \<and> (\<forall>s. map_of kvs loc = Some (JStr s) \<longrightarrow>
              extractStringContent rt (JObj kvs) fieldName loc = Some s)
       \<and> (\<forall>v. map_of kvs loc = Some v \<and> typeof v \<noteq> TString \<and> \<not> is_rich_text v \<longrightarrow>
              extractStringContent rt (JObj kvs) fieldName loc = None)"
proof (intro conjI allI impI)
  assume "map_of kvs loc = None"
  with assms show "extractStringContent rt (JObj kvs) fieldName loc = None"
    by (rule extract_locale_absent)
next
  fix s assume "map_of kvs loc = Some (JStr s)"
  then have "has_property (JObj kvs) loc" "get_prop (JObj kvs) loc = JStr s"
    by (simp_all add: has_own get_own)
  with assms show "extractStringContent rt (JObj kvs) fieldName loc = Some s"
    by (simp add: extract_locale_map is_rich_text_def)
next
  fix v assume v: "map_of kvs loc = Some v \<and> typeof v \<noteq> TString \<and> \<not> is_rich_text v"
  then have "has_property (JObj kvs) loc" "get_prop (JObj kvs) loc = v"
    by (simp_all add: has_own get_own)
  with assms v show "extractStringContent rt (JObj kvs) fieldName loc = None"
    by (simp add: extract_locale_map)
qed

theorem locale_map_normalization_witness:
  "\<not> is_rich_text (JObj [(ascii ''en-US'', JStr (ascii ''Hallo'')), (ascii ''fr'', JNum 5)])
   \<and> extractStringContent demo_runtime
        (JObj [(ascii ''en-US'', JStr (ascii ''Hallo'')), (ascii ''fr'', JNum 5)])
        (ascii ''title'') (ascii ''de-DE'') = None
   \<and> extractStringContent demo_runtime
        (JObj [(ascii ''en-US'', JStr (ascii ''Hallo'')), (ascii ''fr'', JNum 5)])
        (ascii ''title'') (ascii ''en-US'') = Some (ascii ''Hallo'')
   \<and> extractStringContent demo_runtime
        (JObj [(ascii ''en-US'', JStr (ascii ''Hallo'')), (ascii ''fr'', JNum 5)])
        (ascii ''title'') (ascii ''fr'') = None
   \<and> extractStringContent demo_runtime
        (JObj [(ascii ''en-US'', JStr (ascii ''Hallo'')), (ascii ''fr'', JNum 5)])
        (ascii ''title'') (ascii ''toString'') = None"
proof -
  let ?m = "[(ascii ''en-US'', JStr (ascii ''Hallo'')), (ascii ''fr'', JNum 5)]"
  have h: "\<not> is_rich_text (JObj ?m)"
    by (simp add: is_rich_text_def get_prop_def inherited_def Object_prototype_methods_def
        nodeType_def ascii_def)
  have k1: "map_of ?m (ascii ''de-DE'') = None" by (simp add: ascii_def)
  have k2: "map_of ?m (ascii ''en-US'') = Some (JStr (ascii ''Hallo''))" by (simp add: ascii_def)
  have k3: "map_of ?m (ascii ''fr'') = Some (JNum 5) \<and> typeof (JNum 5) \<noteq> TString
              \<and> \<not> is_rich_text (JNum 5)"
    by (simp add: ascii_def is_rich_text_def)
  have k4: "map_of ?m (ascii ''toString'') = None" by (simp add: ascii_def)
  from locale_map_normalization[OF h, of "ascii ''de-DE''" demo_runtime "ascii ''title''"] k1
  have r1: "extractStringContent demo_runtime (JObj ?m) (ascii ''title'') (ascii ''de-DE'') = None"
    by blast
  from locale_map_normalization[OF h, of "ascii ''en-US''" demo_runtime "ascii ''title''"] k2
  have r2: "extractStringContent demo_runtime (JObj ?m) (ascii ''title'') (ascii ''en-US'')
              = Some (ascii ''Hallo'')"
    by blast
  from locale_map_normalization[OF h, of "ascii ''fr''" demo_runtime "ascii ''title''"] k3
  have r3: "extractStringContent demo_runtime (JObj ?m) (ascii ''title'') (ascii ''fr'') = None"
    by blast
  from locale_map_normalization[OF h, of "ascii ''toString''" demo_runtime "ascii ''title''"] k4
  have r4: "extractStringContent demo_runtime (JObj ?m) (ascii ''title'') (ascii ''toString'') = None"
    by blast
  from h r1 r2 r3 r4 show ?thesis by blast
qed

text \<open>
  C8. Let \<open>d\<close> be a rich-text document that is the field value itself, or the value under
  the requested locale key of an object that is not a rich-text document. Then the
  result is what the renderer returns for \<open>d\<close>, and null when the renderer throws. When it
  throws, the loop over the fields of the entry goes on with the fields after this one:
  its result is that of the loop over them, and when the first of them that matches is
  the field \<open>name2\<close>, the entry gets the row of \<open>name2\<close>; when none of them matches,
  the rows stay as they were.
\<close>

theorem rich_text_normalization:
  assumes "is_rich_text d"
    and "fieldValue = d \<or>
         (\<exists>kvs. fieldValue = JObj kvs \<and> \<not> is_rich_text fieldValue \<and> map_of kvs (cfg_locale cfg) = Some d)"
  shows "extractStringContent rt fieldValue fieldName (cfg_locale cfg) = documentToPlainTextString rt d
       \<and> (documentToPlainTextString rt d = None \<longrightarrow>
            field_loop rt cfg entry ((fieldName, fieldValue) # rest) rows
              = field_loop rt cfg entry rest rows)
       \<and> (documentToPlainTextString rt d = None \<longrightarrow>
            (\<forall>before name2 value2 after val i ct.
               (\<forall>kv\<in>set before. \<not> field_matches rt cfg kv) \<and>
               extractStringContent rt value2 name2 (cfg_locale cfg) = Some val \<and>
               val \<noteq> [] \<and> indexOf val (cfg_term cfg) \<noteq> - 1 \<and>
               entry_id entry = Inr i \<and> contentType_of entry = Inr ct \<longrightarrow>
               field_loop rt cfg entry
                 ((fieldName, fieldValue) # before @ (name2, value2) # after) rows =
               Inr (rows @
                 [\<lparr> row_id = i, row_contentType = ct, row_fieldName = name2,
                    row_locale = cfg_locale cfg, row_link = entryLink rt cfg i,
                    row_snippet = makeSnippet cfg val (indexOf val (cfg_term cfg)) \<rparr>])))
       \<and> (documentToPlainTextString rt d = None \<longrightarrow>
            (\<forall>others. (\<forall>kv\<in>set others. \<not> field_matches rt cfg kv) \<longrightarrow>
               field_loop rt cfg entry ((fieldName, fieldValue) # others) rows = Inr rows))"
proof -
  have x: "extractStringContent rt fieldValue fieldName (cfg_locale cfg) = documentToPlainTextString rt d"
    using assms(2)
  proof
    assume "fieldValue = d"
    with assms(1) show ?thesis by (simp add: extract_rich_text)
  next
    assume "\<exists>kvs. fieldValue = JObj kvs \<and> \<not> is_rich_text fieldValue \<and> map_of kvs (cfg_locale cfg) = Some d"
    then obtain kvs where kvs: "fieldValue = JObj kvs" "\<not> is_rich_text (JObj kvs)"
      "map_of kvs (cfg_locale cfg) = Some d" by auto
    from kvs(3) have "has_property (JObj kvs) (cfg_locale cfg)" "get_prop (JObj kvs) (cfg_locale cfg) = d"
      by (simp_all add: has_own get_own)
    with kvs(1) kvs(2) assms(1) show ?thesis by (simp add: extract_locale_map)
  qed
  have skip: "field_loop rt cfg entry ((fieldName, fieldValue) # rest) rows
                = field_loop rt cfg entry rest rows"
    if "documentToPlainTextString rt d = None" for rest
    using x that by simp
  have later: "field_loop rt cfg entry
                 ((fieldName, fieldValue) # before @ (name2, value2) # after) rows =
               Inr (rows @
                 [\<lparr> row_id = i, row_contentType = ct, row_fieldName = name2,
                    row_locale = cfg_locale cfg, row_link = entryLink rt cfg i,
                    row_snippet = makeSnippet cfg val (indexOf val (cfg_term cfg)) \<rparr>])"
    if "documentToPlainTextString rt d = None"
      and "(\<forall>kv\<in>set before. \<not> field_matches rt cfg kv) \<and>
           extractStringContent rt value2 name2 (cfg_locale cfg) = Some val \<and>
           val \<noteq> [] \<and> indexOf val (cfg_term cfg) \<noteq> - 1 \<and>
           entry_id entry = Inr i \<and> contentType_of entry = Inr ct"
    for before name2 value2 after val i ct
  proof -
    from that(2) have p: "\<forall>kv\<in>set before. \<not> field_matches rt cfg kv"
      "extractStringContent rt value2 name2 (cfg_locale cfg) = Some val"
      "val \<noteq> []" "indexOf val (cfg_term cfg) \<noteq> - 1"
      "entry_id entry = Inr i" "contentType_of entry = Inr ct"
      by simp_all
    from field_loop_first_match[OF p, of after rows]
    show ?thesis unfolding skip[OF that(1)] .
  qed
  have none: "field_loop rt cfg entry ((fieldName, fieldValue) # others) rows = Inr rows"
    if "documentToPlainTextString rt d = None"
      and "\<forall>kv\<in>set others. \<not> field_matches rt cfg kv" for others
    using field_loop_no_match[OF that(2), of entry rows] unfolding skip[OF that(1)] .
  from x skip later none show ?thesis by blast
qed

theorem rich_text_normalization_witness:
  "is_rich_text demo_document \<and> is_rich_text broken_document
   \<and> \<not> is_rich_text (JObj [(ascii ''en-US'', demo_document)])
   \<and> extractStringContent demo_runtime demo_document (ascii ''body'') (cfg_locale demo_config)
       = Some (ascii ''A Foo here'')
   \<and> extractStringContent demo_runtime (JObj [(ascii ''en-US'', demo_document)]) (ascii ''body'')
       (cfg_locale demo_config) = Some (ascii ''A Foo here'')
   \<and> documentToPlainTextString demo_runtime broken_document = None
   \<and> extractStringContent demo_runtime broken_document (ascii ''body'') (cfg_locale demo_config) = None
   \<and> field_loop demo_runtime demo_config (entry_with ''e1'' [])
       [(ascii ''body'', broken_document), (ascii ''title'', JStr (ascii ''Foo''))] []
     = Inr [\<lparr> row_id = JStr (ascii ''e1''), row_contentType = JStr (ascii ''Unknown''),
              row_fieldName = ascii ''title'', row_locale = ascii ''en-US'',
              row_link = ascii ''https://app.contentful.com/spaces/space/environments/master/entries/e1'',
              row_snippet = ascii ''[Foo]'' \<rparr>]"
proof -
  let ?m = "JObj [(ascii ''en-US'', demo_document)]"
  let ?e = "entry_with ''e1'' []"
  have nt: "map_of [(nodeType, v), (content, w)] nodeType = Some v"
       "map_of [(nodeType, v), (content, w)] content = Some w" for v w :: jsval
    by (simp_all add: nodeType_def content_def ascii_def)
  have h1: "is_rich_text demo_document"
    by (simp add: is_rich_text_def demo_document_def get_prop_def nt ascii_def)
  have h2: "is_rich_text broken_document"
    by (simp add: is_rich_text_def broken_document_def get_prop_def nt ascii_def)
  have h3: "\<not> is_rich_text ?m"
    by (simp add: is_rich_text_def get_prop_def inherited_def Object_prototype_methods_def
        nodeType_def ascii_def)
  have loc: "map_of [(ascii ''en-US'', demo_document)] (cfg_locale demo_config) = Some demo_document"
    by (simp add: demo_config_def)
  have r1: "documentToPlainTextString demo_runtime demo_document = Some (ascii ''A Foo here'')"
    by (simp add: demo_runtime_def)
  have r2: "documentToPlainTextString demo_runtime broken_document = None"
    by (simp add: demo_runtime_def demo_document_def broken_document_def)
  from rich_text_normalization[OF h1, of demo_document demo_config demo_runtime "ascii ''body''"] r1
  have a: "extractStringContent demo_runtime demo_document (ascii ''body'') (cfg_locale demo_config)
             = Some (ascii ''A Foo here'')" by simp
  from rich_text_normalization[OF h1, of ?m demo_config demo_runtime "ascii ''body''"] h3 loc r1
  have b: "extractStringContent demo_runtime ?m (ascii ''body'') (cfg_locale demo_config)
             = Some (ascii ''A Foo here'')" by simp
  have f1: "\<forall>kv\<in>set []. \<not> field_matches demo_runtime demo_config kv" by simp
  have f2: "extractStringContent demo_runtime (JStr (ascii ''Foo'')) (ascii ''title'')
              (cfg_locale demo_config) = Some (ascii ''Foo'')"
    by (simp add: extractStringContent_def)
  have f3: "ascii ''Foo'' \<noteq> []" by (simp add: ascii_def)
  have f4: "indexOf (ascii ''Foo'') (cfg_term demo_config) = 0"
    by (simp add: indexOf_def demo_config_def ascii_def)
  have f5: "entry_id ?e = Inr (JStr (ascii ''e1''))"
    by (simp add: entry_id_def entry_with_def member_def get_prop_def ascii_def)
  have f6: "contentType_of ?e = Inr (JStr (ascii ''Unknown''))"
    by (simp add: contentType_of_def entry_with_def member_def get_prop_def ascii_def
        inherited_def Object_prototype_methods_def)
  have dj: "broken_document = broken_document \<or>
         (\<exists>kvs. broken_document = JObj kvs \<and> \<not> is_rich_text broken_document \<and>
                map_of kvs (cfg_locale demo_config) = Some broken_document)"
    by simp
  from rich_text_normalization[where d = broken_document and fieldValue = broken_document
      and cfg = demo_config and rt = demo_runtime and fieldName = "ascii ''body''"
      and entry = "?e" and rest = "[]" and rows = "[]", OF h2 dj] r2
  have c: "extractStringContent demo_runtime broken_document (ascii ''body'') (cfg_locale demo_config) = None"
    and later: "\<forall>before name2 value2 after val i ct.
               (\<forall>kv\<in>set before. \<not> field_matches demo_runtime demo_config kv) \<and>
               extractStringContent demo_runtime value2 name2 (cfg_locale demo_config) = Some val \<and>
               val \<noteq> [] \<and> indexOf val (cfg_term demo_config) \<noteq> - 1 \<and>
               entry_id ?e = Inr i \<and> contentType_of ?e = Inr ct \<longrightarrow>
               field_loop demo_runtime demo_config ?e
                 ((ascii ''body'', broken_document) # before @ (name2, value2) # after) [] =
               Inr ([] @
                 [\<lparr> row_id = i, row_contentType = ct, row_fieldName = name2,
                    row_locale = cfg_locale demo_config, row_link = entryLink demo_runtime demo_config i,
                    row_snippet = makeSnippet demo_config val (indexOf val (cfg_term demo_config)) \<rparr>])"
    by (simp, blast)
  from later f1 f2 f3 f4 f5 f6 have
    "field_loop demo_runtime demo_config ?e
       ((ascii ''body'', broken_document) # [] @ (ascii ''title'', JStr (ascii ''Foo'')) # []) [] =
     Inr ([] @
       [\<lparr> row_id = JStr (ascii ''e1''), row_contentType = JStr (ascii ''Unknown''),
          row_fieldName = ascii ''title'', row_locale = cfg_locale demo_config,
          row_link = entryLink demo_runtime demo_config (JStr (ascii ''e1'')),
          row_snippet = makeSnippet demo_config (ascii ''Foo'') (indexOf (ascii ''Foo'') (cfg_term demo_config)) \<rparr>])"
    by (metis int_ops(1) zero_neq_neg_one)
  moreover have "makeSnippet demo_config (ascii ''Foo'') 0 = ascii ''[Foo]''"
    by (simp add: makeSnippet_def js_slice_def demo_config_def ascii_def)
  moreover have "entryLink demo_runtime demo_config (JStr (ascii ''e1''))
      = ascii ''https://app.contentful.com/spaces/space/environments/master/entries/e1''"
    by (simp add: entryLink_def demo_config_def ascii_def)
  moreover have "cfg_locale demo_config = ascii ''en-US''" by (simp add: demo_config_def)
  ultimately have d: "field_loop demo_runtime demo_config ?e
       [(ascii ''body'', broken_document), (ascii ''title'', JStr (ascii ''Foo''))] []
     = Inr [\<lparr> row_id = JStr (ascii ''e1''), row_contentType = JStr (ascii ''Unknown''),
              row_fieldName = ascii ''title'', row_locale = ascii ''en-US'',
              row_link = ascii ''https://app.contentful.com/spaces/space/environments/master/entries/e1'',
              row_snippet = ascii ''[Foo]'' \<rparr>]"
    by (simp add: f4)
  from h1 h2 h3 a b r2 c d show ?thesis by blast
qed

section \<open>The loops of index.js\<close>

lemma contentType_of_entry_id:
  assumes "contentType_of e = Inr ct"
  shows "\<exists>i. entry_id e = Inr i"
  using assms
  by (auto simp: contentType_of_def entry_id_def member_def split: sum.splits if_splits)

lemma processStringValue_cases:
  assumes "processStringValue rt cfg entry fieldName val rows = Inr (found, rows')"
  shows "(\<not> found \<and> rows' = rows) \<or>
         (found \<and> (\<exists>r. rows' = rows @ [r] \<and> row_locale r = cfg_locale cfg \<and>
                        row_fieldName r = fieldName))"
  using assms
  by (auto simp: processStringValue_def Let_def split: if_splits sum.splits)

lemma field_loop_cases:
  assumes "field_loop rt cfg entry kvs rows = Inr rows'"
  shows "rows' = rows \<or> (\<exists>r. rows' = rows @ [r] \<and> row_locale r = cfg_locale cfg)"
  using assms
proof (induction kvs)
  case Nil
  then show ?case by simp
next
  case (Cons kv kvs)
  obtain fieldName fieldValue where kv: "kv = (fieldName, fieldValue)" by (cases kv)
  show ?case
  proof (cases "extractStringContent rt fieldValue fieldName (cfg_locale cfg)")
    case None
    with Cons kv show ?thesis by simp
  next
    case (Some val)
    show ?thesis
    proof (cases "val = []")
      case True
      with Cons kv Some show ?thesis by simp
    next
      case False
      show ?thesis
      proof (cases "processStringValue rt cfg entry fieldName val rows")
        case (Inl e)
        with Cons.prems kv Some False show ?thesis by simp
      next
        case (Inr p)
        obtain found rows1 where p: "p = (found, rows1)" by (cases p)
        from processStringValue_cases[OF Inr[unfolded p]]
        show ?thesis
        proof
          assume "\<not> found \<and> rows1 = rows"
          with Cons kv Some False Inr p show ?thesis by simp
        next
          assume "found \<and> (\<exists>r. rows1 = rows @ [r] \<and> row_locale r = cfg_locale cfg \<and>
                        row_fieldName r = fieldName)"
          with Cons.prems kv Some False Inr p show ?thesis by auto
        qed
      qed
    qed
  qed
qed

lemma field_loop_total:
  assumes "entry_id entry = Inr i" and "contentType_of entry = Inr ct"
  shows "\<exists>rows'. field_loop rt cfg entry kvs rows = Inr rows'"
proof (induction kvs)
  case Nil
  then show ?case by simp
next
  case (Cons kv kvs)
  obtain fieldName fieldValue where kv: "kv = (fieldName, fieldValue)" by (cases kv)
  from Cons obtain rest where rest: "field_loop rt cfg entry kvs rows = Inr rest" ..
  show ?case
  proof (cases "extractStringContent rt fieldValue fieldName (cfg_locale cfg)")
    case None
    with kv rest show ?thesis by simp
  next
    case (Some val)
    show ?thesis
    proof (cases "val \<noteq> [] \<and> indexOf val (cfg_term cfg) \<noteq> - 1")
      case True
      with kv Some assms show ?thesis by (simp add: processStringValue_def)
    next
      case False
      with kv Some rest show ?thesis by (auto simp: processStringValue_def)
    qed
  qed
qed

lemma process_entry_total:
  assumes "readable_entry e"
  shows "\<exists>rows'. process_entry rt cfg e rows = Inr rows'"
proof -
  from assms obtain ct fs kvs where
    r: "contentType_of e = Inr ct" "member e (ascii ''fields'') = Inr fs" "Object_entries fs = Inr kvs"
    by (auto simp: readable_entry_def entry_check_def split: sum.splits)
  from contentType_of_entry_id[OF r(1)] obtain i where "entry_id e = Inr i" ..
  from field_loop_total[OF this r(1)] r show ?thesis
    by (simp add: process_entry_def)
qed

lemma entry_loop_total:
  assumes "\<forall>e\<in>set es. readable_entry e"
  shows "\<exists>rows'. entry_loop rt cfg es rows = Inr rows'"
  using assms
proof (induction es arbitrary: rows)
  case Nil
  then show ?case by simp
next
  case (Cons e es)
  then have "readable_entry e" by simp
  from process_entry_total[OF this] obtain rows1 where "process_entry rt cfg e rows = Inr rows1" ..
  with Cons show ?case by simp
qed

lemma entry_loop_locale:
  assumes "entry_loop rt cfg es rows = Inr rows'" and "\<forall>r\<in>set rows. row_locale r = cfg_locale cfg"
  shows "\<forall>r\<in>set rows'. row_locale r = cfg_locale cfg"
  using assms
proof (induction es arbitrary: rows)
  case Nil
  then show ?case by simp
next
  case (Cons e es)
  from Cons.prems(1) obtain rows1 where
    p: "process_entry rt cfg e rows = Inr rows1" and l: "entry_loop rt cfg es rows1 = Inr rows'"
    by (auto split: sum.splits)
  from p obtain kvs where "field_loop rt cfg e kvs rows = Inr rows1"
    by (auto simp: process_entry_def split: sum.splits)
  from field_loop_cases[OF this] Cons.prems(2)
  have "\<forall>r\<in>set rows1. row_locale r = cfg_locale cfg" by auto
  from Cons.IH[OF l this] show ?case .
qed

lemma page_loop_locale:
  assumes "page_loop rt cfg getEntries skip rows reqs = Some (reqs', Inr rows')"
    and "\<forall>r\<in>set rows. row_locale r = cfg_locale cfg"
  shows "\<forall>r\<in>set rows'. row_locale r = cfg_locale cfg"
proof -
  have "(\<forall>r\<in>set rows. row_locale r = cfg_locale cfg) \<longrightarrow>
        (\<forall>rows'. snd y = Inr rows' \<longrightarrow> (\<forall>r\<in>set rows'. row_locale r = cfg_locale cfg))"
    if "page_loop rt cfg getEntries skip rows reqs = Some y" for y
    using that
  proof (induction rt cfg getEntries skip rows reqs y rule: page_loop.raw_induct[rotated 1, consumes 1])
    case (1 pl rt cfg getEntries skip rows reqs y)
    show ?case
    proof (intro impI allI)
      fix rows'
      assume inv: "\<forall>r\<in>set rows. row_locale r = cfg_locale cfg" and y: "snd y = Inr rows'"
      from "1.hyps" y obtain resp where resp: "getEntries skip = Inr resp"
        by (cases "getEntries skip") auto
      from "1.hyps" y resp obtain rows1 where
        rows1: "entry_loop rt cfg (items resp) rows = Inr rows1"
        by (cases "entry_loop rt cfg (items resp) rows") auto
      from entry_loop_locale[OF rows1 inv]
      have inv1: "\<forall>r\<in>set rows1. row_locale r = cfg_locale cfg" .
      show "\<forall>r\<in>set rows'. row_locale r = cfg_locale cfg"
      proof (cases "int (skip + pageSize) < total resp")
        case True
        with "1.hyps" resp rows1 have
          "pl rt cfg getEntries (skip + pageSize) rows1 (reqs @ [skip]) = Some y" by simp
        from "1.IH"[OF this] inv1 y show ?thesis by blast
      next
        case False
        with "1.hyps" resp rows1 y inv1 show ?thesis by auto
      qed
    qed
  qed
  from this[OF assms(1)] assms(2) show ?thesis by simp
qed

text \<open>
  C9. In every run of the script that returns rows, the locale of every row is the
  fourth element of \<open>process.argv\<close> when that is there and not empty, and "en-US"
  otherwise; whatever the shape of the field that matched.
\<close>

theorem row_locale_is_requested:
  assumes "script rt argv env getEntries = Some (reqs, Inr rows)" and "r \<in> set rows"
  shows "row_locale r = (if 3 < length argv \<and> argv ! 3 \<noteq> [] then argv ! 3 else ascii ''en-US'')"
proof -
  from assms(1) obtain cfg where cfg: "startup argv env = Inr cfg"
    and run: "searchContentful rt cfg getEntries = Some (reqs, Inr rows)"
    by (cases "startup argv env") (auto simp: script_def)
  from cfg have "cfg_locale cfg = (if 3 < length argv \<and> argv ! 3 \<noteq> [] then argv ! 3 else ascii ''en-US'')"
    by (auto simp: Let_def argv_at_def split: if_splits)
  moreover from run have "\<forall>r\<in>set rows. row_locale r = cfg_locale cfg"
    using page_loop_locale[of rt cfg getEntries 0 "[]" "[]" reqs rows]
    by (simp add: searchContentful_def)
  ultimately show ?thesis using assms(2) by simp
qed

theorem row_locale_is_requested_witness:
  "\<exists>r. script demo_runtime [ascii ''node'', ascii ''index.js'', ascii ''Foo'', ascii ''de-DE'']
          demo_environment one_entry_client = Some ([0], Inr [r])
        \<and> row_fieldName r = ascii ''title'' \<and> row_locale r = ascii ''de-DE''"
proof -
  let ?r = "\<lparr> row_id = JStr (ascii ''e1''), row_contentType = JStr (ascii ''Unknown''),
              row_fieldName = ascii ''title'', row_locale = ascii ''de-DE'',
              row_link = ascii ''https://app.contentful.com/spaces/space/environments/master/entries/e1'',
              row_snippet = ascii ''[Foo]'' \<rparr>"
  have run: "script demo_runtime [ascii ''node'', ascii ''index.js'', ascii ''Foo'', ascii ''de-DE'']
          demo_environment one_entry_client = Some ([0], Inr [?r])"
    by code_simp
  from row_locale_is_requested[OF run, of ?r]
  have "row_locale ?r = ascii ''de-DE''" by simp
  with run show ?thesis by (intro exI[of _ ?r]) simp
qed

section \<open>Pagination\<close>

lemma page_loop_run:
  assumes ok: "\<forall>s. \<exists>r. getEntries s = Inr r \<and> total r = T \<and> (\<forall>e\<in>set (items r). readable_entry e)"
  shows "\<exists>n rows'.
           page_loop rt cfg getEntries skip rows reqs
             = Some (reqs @ map (\<lambda>k. skip + k * pageSize) [0..<n], Inr rows')
         \<and> 0 < n \<and> T \<le> int (skip + n * pageSize)
         \<and> (\<forall>k. Suc k < n \<longrightarrow> int (skip + Suc k * pageSize) < T)"
proof (induction "nat (T - int skip)" arbitrary: skip rows reqs rule: less_induct)
  case less
  from ok obtain r where r: "getEntries skip = Inr r" "total r = T"
    "\<forall>e\<in>set (items r). readable_entry e" by blast
  from entry_loop_total[OF r(3)] obtain rows1 where
    rows1: "entry_loop rt cfg (items r) rows = Inr rows1" ..
  show ?case
  proof (cases "int (skip + pageSize) < T")
    case True
    then have "nat (T - int (skip + pageSize)) < nat (T - int skip)"
      by (simp add: pageSize_def)
    from less[OF this, of rows1 "reqs @ [skip]"] obtain n rows' where IH:
      "page_loop rt cfg getEntries (skip + pageSize) rows1 (reqs @ [skip])
         = Some ((reqs @ [skip]) @ map (\<lambda>k. skip + pageSize + k * pageSize) [0..<n], Inr rows')"
      "0 < n" "T \<le> int (skip + pageSize + n * pageSize)"
      "\<forall>k. Suc k < n \<longrightarrow> int (skip + pageSize + Suc k * pageSize) < T"
      by blast
    have step: "page_loop rt cfg getEntries skip rows reqs
                  = page_loop rt cfg getEntries (skip + pageSize) rows1 (reqs @ [skip])"
      using r rows1 True by (subst page_loop.simps) simp
    have m: "map (\<lambda>k. skip + k * pageSize) [0..<Suc n]
               = skip # map (\<lambda>k. skip + pageSize + k * pageSize) [0..<n]"
      by (simp add: upt_conv_Cons map_Suc_upt[symmetric] del: upt_Suc)
    have c: "\<forall>k. Suc k < Suc n \<longrightarrow> int (skip + Suc k * pageSize) < T"
    proof (intro allI impI)
      fix k assume k: "Suc k < Suc n"
      show "int (skip + Suc k * pageSize) < T"
      proof (cases k)
        case 0
        with True show ?thesis by simp
      next
        case (Suc k')
        with k have "Suc k' < n" by simp
        with IH(4) have "int (skip + pageSize + Suc k' * pageSize) < T" by blast
        with Suc show ?thesis by (simp add: add.assoc add.commute)
      qed
    qed
    have "page_loop rt cfg getEntries skip rows reqs
            = Some (reqs @ map (\<lambda>k. skip + k * pageSize) [0..<Suc n], Inr rows')"
      unfolding step IH(1) m by simp
    moreover have "T \<le> int (skip + Suc n * pageSize)"
      using IH(3) by (simp add: add.assoc add.commute)
    ultimately show ?thesis using c by (intro exI[of _ "Suc n"] exI[of _ rows']) simp
  next
    case False
    have "page_loop rt cfg getEntries skip rows reqs = Some (reqs @ [skip], Inr rows1)"
      using r rows1 False by (subst page_loop.simps) simp
    with False show ?thesis by (intro exI[of _ 1] exI[of _ rows1]) simp
  qed
qed

lemma pages_unique:
  assumes "0 < n" and "T \<le> int (n * pageSize)" and "\<forall>k. Suc k < n \<longrightarrow> int (Suc k * pageSize) < T"
  shows "n = pages T"
proof (cases "n = 1")
  case True
  with assms(2) have "real_of_int T / 1000 \<le> 1" by (simp add: pageSize_def)
  then have "\<lceil>real_of_int T / 1000\<rceil> \<le> 1" by (simp add: ceiling_le_iff)
  with True show ?thesis by (simp add: pages_def)
next
  case False
  with assms(1) obtain k where k: "n = Suc (Suc k)" by (cases n) (auto simp: gr0_conv_Suc)
  with assms(3) have lo: "int (Suc k * pageSize) < T" by simp
  have "\<lceil>real_of_int T / 1000\<rceil> = int n"
  proof (rule ceiling_unique)
    from lo k show "of_int (int n) - 1 < real_of_int T / 1000"
      by (simp add: pageSize_def)
    from assms(2) show "real_of_int T / 1000 \<le> of_int (int n)"
      by (simp add: pageSize_def)
  qed
  with k show ?thesis by (simp add: pages_def)
qed

lemma concat_pages:
  "concat (map (\<lambda>k. take p (drop (k * p) xs)) [0..<n]) = take (n * p) xs"
proof (induction n)
  case 0
  then show ?case by simp
next
  case (Suc n)
  have "take (n * p + p) xs = take (n * p) xs @ take p (drop (n * p) xs)"
    by (rule take_add)
  with Suc show ?case by (simp add: add.commute)
qed

text \<open>
  C3. Let every request succeed with the same total \<open>T\<close> and with entries that can be
  read. Then the search returns; the offsets requested are \<open>0, 1000, 2000, ...\<close>, as many
  as \<open>T / 1000\<close> rounded up and at least one; the loop stops at the first offset that
  reaches or exceeds \<open>T\<close>; when \<open>T\<close> is \<open>0\<close> and its one page is empty, the result is
  empty; and when the server holds a list of \<open>T\<close> entries and answers each request with
  the page of that list at the offset asked for, the pages requested together are that
  list, so the entries they hold are \<open>T\<close> in number.
\<close>

theorem pagination:
  assumes "\<forall>s. \<exists>r. getEntries s = Inr r \<and> total r = T \<and> (\<forall>e\<in>set (items r). readable_entry e)"
  shows "\<exists>rows.
           searchContentful rt cfg getEntries
             = Some (map (\<lambda>k. k * pageSize) [0..<pages T], Inr rows)
         \<and> T \<le> int (pages T * pageSize)
         \<and> (\<forall>k. Suc k < pages T \<longrightarrow> int (Suc k * pageSize) < T)
         \<and> (T = 0 \<longrightarrow> pages T = 1)
         \<and> (T = 0 \<and> page_items getEntries 0 = [] \<longrightarrow> rows = [])
         \<and> (\<forall>all. T = int (length all) \<and>
                   (\<forall>s. page_items getEntries s = take pageSize (drop s all)) \<longrightarrow>
                concat (map (page_items getEntries) (map (\<lambda>k. k * pageSize) [0..<pages T])) = all
              \<and> int (length (concat (map (page_items getEntries)
                     (map (\<lambda>k. k * pageSize) [0..<pages T])))) = T)"
proof -
  from page_loop_run[OF assms, of rt cfg 0 "[]" "[]"] obtain n rows where run:
    "page_loop rt cfg getEntries 0 [] [] = Some (map (\<lambda>k. k * pageSize) [0..<n], Inr rows)"
    "0 < n" "T \<le> int (n * pageSize)" "\<forall>k. Suc k < n \<longrightarrow> int (Suc k * pageSize) < T"
    by auto
  from pages_unique[OF run(2) run(3) run(4)] have n: "n = pages T" .
  have zero: "pages 0 = 1" by (simp add: pages_def)
  have empty: "rows = []" if "T = 0" "page_items getEntries 0 = []"
  proof -
    from assms obtain r where r: "getEntries 0 = Inr r" "total r = T" by blast
    with that have "items r = []" by (simp add: page_items_def)
    with r that have "page_loop rt cfg getEntries 0 [] [] = Some ([0], Inr [])"
      by (subst page_loop.simps) (simp add: pageSize_def)
    with run(1) show ?thesis by simp
  qed
  have all: "concat (map (page_items getEntries) (map (\<lambda>k. k * pageSize) [0..<pages T])) = all"
    if "T = int (length all)" "\<forall>s. page_items getEntries s = take pageSize (drop s all)" for all
  proof -
    have "concat (map (page_items getEntries) (map (\<lambda>k. k * pageSize) [0..<pages T]))
            = concat (map (\<lambda>k. take pageSize (drop (k * pageSize) all)) [0..<pages T])"
      using that(2) by (simp add: comp_def)
    also have "\<dots> = take (pages T * pageSize) all" by (rule concat_pages)
    also have "\<dots> = all"
    proof -
      from run(3) n that(1) have "int (length all) \<le> int (pages T * pageSize)" by simp
      then have "length all \<le> pages T * pageSize" by (simp only: of_nat_le_iff)
      then show ?thesis by simp
    qed
    finally show ?thesis .
  qed
  from run n zero empty all show ?thesis
    unfolding searchContentful_def by (intro exI[of _ rows]) auto
qed

theorem pagination_witness:
  "(\<forall>s. \<exists>r. big_client s = Inr r \<and> total r = 2500 \<and> (\<forall>e\<in>set (items r). readable_entry e))
   \<and> (\<exists>rows. searchContentful demo_runtime demo_config big_client
                 = Some ([0, 1000, 2000], Inr rows))
   \<and> length (concat (map (page_items big_client) [0, 1000, 2000])) = 2500"
proof -
  let ?e = "entry_with ''e1'' [(ascii ''title'', JStr (ascii ''foo''))]"
  have re: "readable_entry ?e"
    by (simp add: readable_entry_def entry_check_def contentType_of_def entry_with_def member_def
        get_prop_def Object_entries_def inherited_def Object_prototype_methods_def ascii_def)
  have "e = ?e" if "e \<in> set (take pageSize (drop s (replicate 2500 ?e)))" for e s
    using that by (auto dest!: in_set_takeD in_set_dropD)
  with re have h: "\<forall>s. \<exists>r. big_client s = Inr r \<and> total r = 2500 \<and> (\<forall>e\<in>set (items r). readable_entry e)"
    by (auto simp: big_client_def)
  have p: "pages 2500 = 3" by (simp add: pages_def)
  have o: "map (\<lambda>k. k * pageSize) [0..<3] = [0, 1000, 2000]"
    by (simp add: pageSize_def upt_rec)
  have srv: "2500 = int (length (replicate 2500 ?e)) \<and>
             (\<forall>s. page_items big_client s = take pageSize (drop s (replicate 2500 ?e)))"
    by (simp add: page_items_def big_client_def)
  from pagination[OF h, of demo_runtime demo_config] obtain rows where
    run: "searchContentful demo_runtime demo_config big_client
            = Some (map (\<lambda>k. k * pageSize) [0..<pages 2500], Inr rows)"
    and cnt: "\<forall>all. 2500 = int (length all) \<and>
                   (\<forall>s. page_items big_client s = take pageSize (drop s all)) \<longrightarrow>
                concat (map (page_items big_client) (map (\<lambda>k. k * pageSize) [0..<pages 2500])) = all
              \<and> int (length (concat (map (page_items big_client)
                     (map (\<lambda>k. k * pageSize) [0..<pages 2500])))) = 2500"
    by blast
  from cnt srv have "int (length (concat (map (page_items big_client)
                     (map (\<lambda>k. k * pageSize) [0..<pages 2500])))) = 2500"
    by blast
  then have "length (concat (map (page_items big_client) [0, 1000, 2000])) = 2500"
    unfolding p o by linarith
  moreover from run have "searchContentful demo_runtime demo_config big_client
            = Some ([0, 1000, 2000], Inr rows)"
    unfolding p o .
  ultimately show ?thesis using h by blast
qed

section \<open>One record for an entry\<close>

text \<open>
  In index.js an entry adds no row or one row; the row is that of the first field that
  matches, whatever fields come after it.
\<close>

lemma process_entry_at_most_one:
  assumes "process_entry rt cfg e rows = Inr rows'"
  shows "rows' = rows \<or> (\<exists>r. rows' = rows @ [r])"
proof -
  from assms obtain kvs where "field_loop rt cfg e kvs rows = Inr rows'"
    by (auto simp: process_entry_def split: sum.splits)
  from field_loop_cases[OF this] show ?thesis by blast
qed

text \<open>Variant 1 also adds no row or one row for an entry.\<close>

lemma field_loop_1_at_most_one:
  assumes "field_loop_1 rt cfg e kvs rows = Inr rows'"
  shows "rows' = rows \<or> (\<exists>r. rows' = rows @ [r])"
  using assms
proof (induction kvs)
  case Nil
  then show ?case by simp
next
  case (Cons kv kvs)
  obtain n v where kv: "kv = (n, v)" by (cases kv)
  have "field_body_1 rt cfg e n v rows = Fall_through rows \<or>
        (\<exists>r. field_body_1 rt cfg e n v rows = Break (rows @ [r])) \<or>
        (\<exists>err. field_body_1 rt cfg e n v rows = Throw err)"
    by (auto simp: field_body_1_def Let_def split: option.splits sum.splits)
  with Cons kv show ?case
    by (auto split: sum.splits if_splits)
qed

text \<open>
  C1. Variant 2 hands a plain string field to \<open>processStringValue\<close> and continues with
  the next field without looking at the result, so an entry with two plain string fields
  that hold the term gets two rows, with the same id. index.js and variant 1 give the
  same entry one row, for its first field.
\<close>

theorem variant_2_two_records_for_one_entry:
  "(\<exists>r1 r2. entry_loop_2 demo_runtime demo_config [two_matches_entry] [] = Inr [r1, r2]
            \<and> pr_id r1 = JStr (ascii ''e1'') \<and> pr_id r2 = JStr (ascii ''e1'')
            \<and> pr_fieldName r1 = ascii ''title'' \<and> pr_fieldName r2 = ascii ''body'')
   \<and> (\<exists>r. entry_loop demo_runtime demo_config [two_matches_entry] [] = Inr [r]
            \<and> row_fieldName r = ascii ''title'')
   \<and> (\<exists>r. entry_loop_1 demo_runtime demo_config [two_matches_entry] [] = Inr [r]
            \<and> pr_fieldName r = ascii ''title'')"
proof -
  let ?link = "ascii ''https://app.contentful.com/spaces/space/environments/master/entries/e1''"
  let ?r1 = "\<lparr> pr_id = JStr (ascii ''e1''), pr_fieldName = ascii ''title'', pr_link = ?link,
               pr_snippet = ascii ''[Foo]'' \<rparr>"
  let ?r2 = "\<lparr> pr_id = JStr (ascii ''e1''), pr_fieldName = ascii ''body'', pr_link = ?link,
               pr_snippet = ascii ''a [Foo] b'' \<rparr>"
  let ?r = "\<lparr> row_id = JStr (ascii ''e1''), row_contentType = JStr (ascii ''Unknown''),
              row_fieldName = ascii ''title'', row_locale = ascii ''en-US'', row_link = ?link,
              row_snippet = ascii ''[Foo]'' \<rparr>"
  have a: "entry_loop_2 demo_runtime demo_config [two_matches_entry] [] = Inr [?r1, ?r2]"
    by code_simp
  have b: "entry_loop demo_runtime demo_config [two_matches_entry] [] = Inr [?r]"
    by code_simp
  have c: "entry_loop_1 demo_runtime demo_config [two_matches_entry] [] = Inr [?r1]"
    by code_simp
  from a have "\<exists>r1 r2. entry_loop_2 demo_runtime demo_config [two_matches_entry] [] = Inr [r1, r2]
            \<and> pr_id r1 = JStr (ascii ''e1'') \<and> pr_id r2 = JStr (ascii ''e1'')
            \<and> pr_fieldName r1 = ascii ''title'' \<and> pr_fieldName r2 = ascii ''body''"
    by (intro exI[of _ ?r1] exI[of _ ?r2]) simp
  moreover from b have "\<exists>r. entry_loop demo_runtime demo_config [two_matches_entry] [] = Inr [r]
            \<and> row_fieldName r = ascii ''title''"
    by (intro exI[of _ ?r]) simp
  moreover from c have "\<exists>r. entry_loop_1 demo_runtime demo_config [two_matches_entry] [] = Inr [r]
            \<and> pr_fieldName r = ascii ''title''"
    by (intro exI[of _ ?r1]) simp
  ultimately show ?thesis by blast
qed

section \<open>A failure while an entry is processed\<close>

text \<open>
  In index.js a failure while an entry is processed ends the loop over the page, and the
  run, with that failure: no entry after it is looked at.
\<close>

lemma entry_loop_aborts:
  assumes "entry_loop rt cfg before rows = Inr rows1" and "process_entry rt cfg e rows1 = Inl err"
  shows "entry_loop rt cfg (before @ e # rest) rows = Inl err"
  using assms
proof (induction before arbitrary: rows)
  case Nil
  then show ?case by simp
next
  case (Cons b before)
  then show ?case by (auto split: sum.splits)
qed

lemma page_loop_aborts:
  assumes "getEntries skip = Inr r" and "entry_loop rt cfg (items r) rows = Inl err"
  shows "page_loop rt cfg getEntries skip rows reqs = Some (reqs @ [skip], Inl err)"
  using assms by (subst page_loop.simps) simp

text \<open>
  Both variants skip an entry that fails the reads of their try block, and no entry makes
  their loop over a page fail.
\<close>

lemma entry_loop_1_skips:
  assumes "entry_check e = Inl err"
  shows "entry_loop_1 rt cfg (e # rest) rows = entry_loop_1 rt cfg rest rows"
  using assms by simp

lemma entry_loop_2_skips:
  assumes "entry_check e = Inl err"
  shows "entry_loop_2 rt cfg (e # rest) rows = entry_loop_2 rt cfg rest rows"
  using assms by simp

lemma field_loop_1_total:
  assumes "entry_id e = Inr i"
  shows "\<exists>rows'. field_loop_1 rt cfg e kvs rows = Inr rows'"
proof (induction kvs arbitrary: rows)
  case Nil
  then show ?case by simp
next
  case (Cons kv kvs)
  obtain n v where kv: "kv = (n, v)" by (cases kv)
  have b: "field_body_1 rt cfg e n v rows = Fall_through rows \<or>
        (\<exists>r. field_body_1 rt cfg e n v rows = Break (rows @ [r]))"
    using assms by (auto simp: field_body_1_def Let_def split: option.splits)
  have d: "\<exists>b. dedupe_break e rows = Inr b"
    using assms by (auto simp: dedupe_break_def)
  from b d Cons[of rows] kv show ?case by auto
qed

lemma entry_loop_1_total: "\<exists>rows'. entry_loop_1 rt cfg es rows = Inr rows'"
proof (induction es arbitrary: rows)
  case Nil
  then show ?case by simp
next
  case (Cons e es)
  show ?case
  proof (cases "entry_check e")
    case (Inl err)
    with Cons[of rows] show ?thesis by simp
  next
    case (Inr u)
    then obtain ct fs kvs where
      r: "contentType_of e = Inr ct" "member e (ascii ''fields'') = Inr fs" "Object_entries fs = Inr kvs"
      by (auto simp: entry_check_def split: sum.splits)
    from contentType_of_entry_id[OF r(1)] obtain i where "entry_id e = Inr i" ..
    from field_loop_1_total[OF this] obtain rows1 where
      "field_loop_1 rt cfg e kvs rows = Inr rows1" by blast
    with Inr r Cons[of rows1] show ?thesis by simp
  qed
qed

text \<open>
  C4. A page whose first entry has no \<open>fields\<close> and whose second entry matches:
  index.js fails with a TypeError at the first entry, and the run ends with that
  failure after its first request, with no rows. Variant 1 and variant 2 skip the first
  entry and give the row of the second.
\<close>

theorem index_js_aborts_on_unreadable_entry:
  "process_entry demo_runtime demo_config entry_without_fields [] = Inl TypeError
   \<and> entry_loop demo_runtime demo_config mixed_page [] = Inl TypeError
   \<and> searchContentful demo_runtime demo_config mixed_client = Some ([0], Inl TypeError)
   \<and> (\<exists>r. entry_loop_1 demo_runtime demo_config mixed_page [] = Inr [r]
            \<and> pr_id r = JStr (ascii ''b''))
   \<and> (\<exists>r. entry_loop_2 demo_runtime demo_config mixed_page [] = Inr [r]
            \<and> pr_id r = JStr (ascii ''b''))"
proof -
  let ?r = "\<lparr> pr_id = JStr (ascii ''b''), pr_fieldName = ascii ''title'',
              pr_link = ascii ''https://app.contentful.com/spaces/space/environments/master/entries/b'',
              pr_snippet = ascii ''[Foo]'' \<rparr>"
  have a: "process_entry demo_runtime demo_config entry_without_fields [] = Inl TypeError"
    by code_simp
  have b: "entry_loop demo_runtime demo_config mixed_page [] = Inl TypeError"
    by code_simp
  have c: "searchContentful demo_runtime demo_config mixed_client = Some ([0], Inl TypeError)"
    by code_simp
  have d: "entry_loop_1 demo_runtime demo_config mixed_page [] = Inr [?r]"
    by code_simp
  have e: "entry_loop_2 demo_runtime demo_config mixed_page [] = Inr [?r]"
    by code_simp
  from d have "\<exists>r. entry_loop_1 demo_runtime demo_config mixed_page [] = Inr [r]
            \<and> pr_id r = JStr (ascii ''b'')"
    by (intro exI[of _ ?r]) simp
  moreover from e have "\<exists>r. entry_loop_2 demo_runtime demo_config mixed_page [] = Inr [r]
            \<and> pr_id r = JStr (ascii ''b'')"
    by (intro exI[of _ ?r]) simp
  ultimately show ?thesis using a b c by blast
qed

section \<open>The configuration check\<close>

text \<open>
  With a search term on the command line, a missing or empty \<open>SPACE_ID\<close> or
  \<open>CPA_TOKEN\<close> ends the script with a configuration error and no request.
\<close>

lemma missing_space_or_token:
  assumes "truthy (argv_at argv 2)"
    and "\<not> truthy (env_val (env_SPACE_ID env)) \<or> \<not> truthy (env_val (env_CPA_TOKEN env))"
  shows "script rt argv env getEntries = Some ([], Inl ConfigurationError)"
  using assms by (auto simp: script_def Let_def)

lemma missing_term:
  assumes "\<not> truthy (argv_at argv 2)"
  shows "script rt argv env getEntries = Some ([], Inl UsageError)"
  using assms by (simp add: script_def Let_def)

text \<open>
  C5. With \<open>SPACE_ID\<close> and \<open>CPA_TOKEN\<close> set and \<open>ENVIRONMENT_ID\<close> not set, the
  checks pass: the script makes its request, and the links of its rows name the
  environment "undefined".
\<close>

theorem missing_environment_id_is_not_detected:
  "startup [ascii ''node'', ascii ''index.js'', ascii ''Foo''] environment_without_id =
     Inr \<lparr> cfg_term = ascii ''Foo'', cfg_locale = ascii ''en-US'', SPACE_ID = ascii ''space'',
           CPA_TOKEN = ascii ''token'', ENVIRONMENT_ID = None, DEBUG_MODE = False \<rparr>
   \<and> script demo_runtime [ascii ''node'', ascii ''index.js'', ascii ''Foo''] environment_without_id
       one_entry_client =
     Some ([0], Inr [\<lparr> row_id = JStr (ascii ''e1''), row_contentType = JStr (ascii ''Unknown''),
       row_fieldName = ascii ''title'', row_locale = ascii ''en-US'',
       row_link = ascii ''https://app.contentful.com/spaces/space/environments/undefined/entries/e1'',
       row_snippet = ascii ''[Foo]'' \<rparr>])"
  by code_simp

end
